theory Spec2Isabelle
  imports Main "HOL-Library.Word" "HOL-Library.Multiset"
begin

unbundle bit_operations_syntax

section \<open>Data model\<close>

text \<open>
  A Node \<open>Buffer\<close> (and a \<open>Uint8Array\<close>) is a sequence of bytes.  A JavaScript string is a
  sequence of UTF-16 code units.  A JavaScript array of numbers is a list whose entries
  may be missing: \<open>None\<close> stands for a hole left by \<open>new Array(n)\<close> and for
  \<open>undefined\<close>.
\<close>

type_synonym byte = "8 word"
type_synonym buffer = "byte list"
type_synonym jsstring = "16 word list"
type_synonym jsarray = "int option list"

text \<open>An ASCII string literal of the source, as a JavaScript string.\<close>

definition js :: "string \<Rightarrow> jsstring" where
  "js s = map (\<lambda>c. of_nat (of_char c)) s"

subsection \<open>The two constant tables\<close>

definition Hr_r :: "int list" where
  "Hr_r = [87, 78, 72, 56, 79, 48, 122, 79, 107, 104, 82, 119, 51, 100, 78, 90, 85, 85, 69, 107, 90, 116, 87, 48, 108, 53, 83, 84, 70, 81, 121, 69]"

definition Hr_m :: "nat list" where
  "Hr_m = [27, 26, 25, 22, 24, 21, 17, 12, 30, 19, 20, 14, 31, 8, 18, 10, 13, 5, 29, 7, 16, 6, 28, 23, 9, 15, 4, 0, 11, 2, 3, 1]"

definition jr_r :: "int list" where
  "jr_r = [87, 90, 109, 107, 53, 105, 81, 89, 103, 107, 68, 49, 68, 105, 106, 77, 49, 106, 53, 78, 77, 78, 106, 106, 61, 77, 89, 51, 66, 79, 86, 89, 106, 65, 106, 52, 89, 77, 87, 106, 89, 122, 78, 90, 65, 89, 50, 105, 61, 90, 106, 66, 48, 53, 71, 89, 87, 52, 81, 84, 78, 90, 74, 78, 103, 50, 70, 79, 51, 50, 50, 77, 122, 108, 84, 81, 120, 90, 89, 89, 89, 79, 119, 122, 121, 108, 69, 77]"

definition jr_m :: "nat list" where
  "jr_m = [65, 20, 1, 6, 31, 63, 74, 12, 85, 78, 33, 3, 41, 19, 45, 52, 75, 21, 23, 16, 56, 36, 5, 71, 87, 68, 72, 15, 18, 32, 82, 8, 17, 54, 83, 35, 28, 48, 49, 77, 30, 25, 10, 38, 22, 50, 29, 11, 86, 64, 57, 70, 47, 67, 81, 44, 61, 7, 58, 13, 84, 76, 42, 24, 46, 37, 62, 80, 27, 51, 73, 34, 69, 39, 53, 2, 79, 60, 26, 0, 66, 40, 55, 9, 59, 43, 14, 4]"

definition Sh :: nat where
  "Sh = 16"

section \<open>The descrambler\<close>

subsection \<open>JavaScript arrays\<close>

text \<open>Reading \<open>n[s]\<close> past the end of an array gives \<open>undefined\<close>.\<close>

definition arr_get :: "int list \<Rightarrow> nat \<Rightarrow> int option" where
  "arr_get n s = (if s < length n then Some (n ! s) else None)"

text \<open>Writing \<open>t[i] = v\<close> at or past the end of an array extends it, leaving holes.\<close>

definition arr_set :: "jsarray \<Rightarrow> nat \<Rightarrow> int option \<Rightarrow> jsarray" where
  "arr_set t i v =
     (if i < length t then t[i := v] else t @ replicate (i - length t) None @ [v])"

text \<open>
  \<open>Ah(n, e)\<close>: \<open>t = new Array(n.length)\<close>, then \<open>t[e[s]] = n[s]\<close> for \<open>s\<close> from 0 up to
  \<open>e.length\<close>.
\<close>

definition Ah :: "int list \<Rightarrow> nat list \<Rightarrow> jsarray" where
  "Ah n e =
     fold (\<lambda>s t. arr_set t (e ! s) (arr_get n s)) [0..<length e] (replicate (length n) None)"

subsection \<open>Buffers from arrays\<close>

text \<open>
  \<open>Buffer.from(array)\<close> stores every entry modulo 256; a hole or \<open>undefined\<close> is stored
  as 0.
\<close>

definition to_uint8 :: "int option \<Rightarrow> byte" where
  "to_uint8 v = (case v of None \<Rightarrow> 0 | Some x \<Rightarrow> of_int x)"

definition Buffer_from_array :: "jsarray \<Rightarrow> buffer" where
  "Buffer_from_array t = map to_uint8 t"

subsection \<open>Decoding UTF-8\<close>

text \<open>
  \<open>buf.toString("utf-8")\<close> never throws: every maximal ill-formed part of the input is
  decoded as U+FFFD, and decoding resumes at the byte that ended it.  The decoder below
  yields code points; \<open>is_cont\<close> recognises a continuation byte.
\<close>

definition is_cont :: "nat \<Rightarrow> bool" where
  "is_cont b = (128 \<le> b \<and> b \<le> 191)"

text \<open>The range of the second byte after a three-byte or four-byte lead byte.\<close>

definition second_lo :: "nat \<Rightarrow> nat" where
  "second_lo b0 = (if b0 = 224 then 160 else if b0 = 240 then 144 else 128)"

definition second_hi :: "nat \<Rightarrow> nat" where
  "second_hi b0 = (if b0 = 237 then 159 else if b0 = 244 then 143 else 191)"

fun utf8_decode :: "nat list \<Rightarrow> nat list" where
  "utf8_decode [] = []"
| "utf8_decode (b0 # bs) =
     (if b0 < 128 then b0 # utf8_decode bs
      else if 194 \<le> b0 \<and> b0 \<le> 223 then
        (case bs of
           [] \<Rightarrow> [65533]
         | b1 # bs1 \<Rightarrow>
             if is_cont b1 then ((b0 - 192) * 64 + (b1 - 128)) # utf8_decode bs1
             else 65533 # utf8_decode bs)
      else if 224 \<le> b0 \<and> b0 \<le> 239 then
        (case bs of
           [] \<Rightarrow> [65533]
         | b1 # bs1 \<Rightarrow>
             if second_lo b0 \<le> b1 \<and> b1 \<le> second_hi b0 then
               (case bs1 of
                  [] \<Rightarrow> [65533]
                | b2 # bs2 \<Rightarrow>
                    if is_cont b2
                    then ((b0 - 224) * 4096 + (b1 - 128) * 64 + (b2 - 128)) # utf8_decode bs2
                    else 65533 # utf8_decode bs1)
             else 65533 # utf8_decode bs)
      else if 240 \<le> b0 \<and> b0 \<le> 244 then
        (case bs of
           [] \<Rightarrow> [65533]
         | b1 # bs1 \<Rightarrow>
             if second_lo b0 \<le> b1 \<and> b1 \<le> second_hi b0 then
               (case bs1 of
                  [] \<Rightarrow> [65533]
                | b2 # bs2 \<Rightarrow>
                    if is_cont b2 then
                      (case bs2 of
                         [] \<Rightarrow> [65533]
                       | b3 # bs3 \<Rightarrow>
                           if is_cont b3
                           then ((b0 - 240) * 262144 + (b1 - 128) * 4096 + (b2 - 128) * 64
                                   + (b3 - 128)) # utf8_decode bs3
                           else 65533 # utf8_decode bs2)
                    else 65533 # utf8_decode bs1)
             else 65533 # utf8_decode bs)
      else 65533 # utf8_decode bs)"

text \<open>A code point as UTF-16 code units: one unit, or a surrogate pair above U+FFFF.\<close>

definition utf16_units :: "nat \<Rightarrow> jsstring" where
  "utf16_units cp =
     (if cp < 65536 then [of_nat cp]
      else [of_nat (55296 + (cp - 65536) div 1024), of_nat (56320 + (cp - 65536) mod 1024)])"

definition toString_utf8 :: "buffer \<Rightarrow> jsstring" where
  "toString_utf8 b = concat (map utf16_units (utf8_decode (map unat b)))"

subsection \<open>Decoding base64\<close>

text \<open>
  \<open>Buffer.from(s, "base64")\<close> never throws either.  It reads the low byte of every code
  unit, accepts the standard and the URL-safe alphabet, skips every other character and
  stops at the first \<open>=\<close>.  Two characters left over give one byte, three give two.
\<close>

definition unbase64 :: "nat \<Rightarrow> nat option" where
  "unbase64 c =
     (if 65 \<le> c \<and> c \<le> 90 then Some (c - 65)
      else if 97 \<le> c \<and> c \<le> 122 then Some (c - 71)
      else if 48 \<le> c \<and> c \<le> 57 then Some (c + 4)
      else if c = 43 \<or> c = 45 then Some 62
      else if c = 47 \<or> c = 95 then Some 63
      else None)"

fun b64_sextets :: "nat list \<Rightarrow> nat list" where
  "b64_sextets [] = []"
| "b64_sextets (c # cs) =
     (case unbase64 c of
        Some v \<Rightarrow> v # b64_sextets cs
      | None \<Rightarrow> if c = 61 then [] else b64_sextets cs)"

fun b64_bytes :: "nat list \<Rightarrow> nat list" where
  "b64_bytes (a # b # c # d # rest) =
     (a * 4 + b div 16) # ((b mod 16) * 16 + c div 4) # ((c mod 4) * 64 + d) # b64_bytes rest"
| "b64_bytes [a, b, c] = [a * 4 + b div 16, (b mod 16) * 16 + c div 4]"
| "b64_bytes [a, b] = [a * 4 + b div 16]"
| "b64_bytes _ = []"

definition Buffer_from_base64 :: "jsstring \<Rightarrow> buffer" where
  "Buffer_from_base64 s = map of_nat (b64_bytes (b64_sextets (map (\<lambda>u. unat u mod 256) s)))"

subsection \<open>\<open>Fl\<close>\<close>

definition Fl :: "int list \<Rightarrow> nat list \<Rightarrow> jsstring" where
  "Fl n e =
     (let t = Ah n e;
          s = toString_utf8 (Buffer_from_array t);
          o' = Buffer_from_base64 s;
          i = rev o'
      in toString_utf8 i)"

text \<open>
  \<open>m\<close> is a bijection on the indices below \<open>n\<close>: it has \<open>n\<close> entries, no entry occurs
  twice, and its entries are exactly the indices below \<open>n\<close>.
\<close>

definition permutation_of :: "nat list \<Rightarrow> nat \<Rightarrow> bool" where
  "permutation_of m n = (length m = n \<and> distinct m \<and> set m = {..<n})"

section \<open>Strings as bytes\<close>

text \<open>
  \<open>Buffer.from(string)\<close>, a string password of \<open>pbkdf2Sync\<close> and
  \<open>cipher.update(string, "utf8")\<close> all encode the string as UTF-8.  A surrogate pair is
  one code point; a surrogate without its partner is encoded as U+FFFD.
\<close>

fun utf16_decode :: "nat list \<Rightarrow> nat list" where
  "utf16_decode [] = []"
| "utf16_decode (u # us) =
     (if 55296 \<le> u \<and> u \<le> 56319 then
        (case us of
           [] \<Rightarrow> [65533]
         | v # vs \<Rightarrow>
             if 56320 \<le> v \<and> v \<le> 57343
             then (65536 + (u - 55296) * 1024 + (v - 56320)) # utf16_decode vs
             else 65533 # utf16_decode us)
      else if 56320 \<le> u \<and> u \<le> 57343 then 65533 # utf16_decode us
      else u # utf16_decode us)"

definition utf8_bytes :: "nat \<Rightarrow> nat list" where
  "utf8_bytes cp =
     (if cp < 128 then [cp]
      else if cp < 2048 then [192 + cp div 64, 128 + cp mod 64]
      else if cp < 65536 then [224 + cp div 4096, 128 + cp div 64 mod 64, 128 + cp mod 64]
      else [240 + cp div 262144, 128 + cp div 4096 mod 64, 128 + cp div 64 mod 64,
            128 + cp mod 64])"

definition Buffer_from_string :: "jsstring \<Rightarrow> buffer" where
  "Buffer_from_string s = map of_nat (concat (map utf8_bytes (utf16_decode (map unat s))))"

section \<open>Key derivation\<close>

text \<open>
  The primitives of Node's \<open>crypto\<close> module that \<open>Th\<close> relies on: SHA-256 (FIPS 180-4),
  HMAC (RFC 2104) and PBKDF2 (RFC 8018).
\<close>

subsection \<open>SHA-256\<close>

type_synonym u32 = "32 word"

text \<open>The round constants and the initial hash value of FIPS 180-4, in decimal.\<close>

definition K256 :: "u32 list" where
  "K256 =
    [1116352408, 1899447441, 3049323471, 3921009573, 961987163, 1508970993, 2453635748,
     2870763221, 3624381080, 310598401, 607225278, 1426881987, 1925078388, 2162078206,
     2614888103, 3248222580, 3835390401, 4022224774, 264347078, 604807628, 770255983,
     1249150122, 1555081692, 1996064986, 2554220882, 2821834349, 2952996808, 3210313671,
     3336571891, 3584528711, 113926993, 338241895, 666307205, 773529912, 1294757372,
     1396182291, 1695183700, 1986661051, 2177026350, 2456956037, 2730485921, 2820302411,
     3259730800, 3345764771, 3516065817, 3600352804, 4094571909, 275423344, 430227734,
     506948616, 659060556, 883997877, 958139571, 1322822218, 1537002063, 1747873779,
     1955562222, 2024104815, 2227730452, 2361852424, 2428436474, 2756734187, 3204031479,
     3329325298]"

definition H256 :: "u32 list" where
  "H256 =
    [1779033703, 3144134277, 1013904242, 2773480762, 1359893119, 2600822924, 528734635,
     1541459225]"

definition Ch :: "u32 \<Rightarrow> u32 \<Rightarrow> u32 \<Rightarrow> u32" where
  "Ch x y z = (x AND y) XOR (NOT x AND z)"

definition Maj :: "u32 \<Rightarrow> u32 \<Rightarrow> u32 \<Rightarrow> u32" where
  "Maj x y z = (x AND y) XOR (x AND z) XOR (y AND z)"

definition Sigma0 :: "u32 \<Rightarrow> u32" where
  "Sigma0 x = word_rotr 2 x XOR word_rotr 13 x XOR word_rotr 22 x"

definition Sigma1 :: "u32 \<Rightarrow> u32" where
  "Sigma1 x = word_rotr 6 x XOR word_rotr 11 x XOR word_rotr 25 x"

definition sigma0 :: "u32 \<Rightarrow> u32" where
  "sigma0 x = word_rotr 7 x XOR word_rotr 18 x XOR drop_bit 3 x"

definition sigma1 :: "u32 \<Rightarrow> u32" where
  "sigma1 x = word_rotr 17 x XOR word_rotr 19 x XOR drop_bit 10 x"

text \<open>Big-endian words.\<close>

definition be32_word :: "buffer \<Rightarrow> u32" where
  "be32_word b = fold (\<lambda>x w. push_bit 8 w OR ucast x) b 0"

definition be32_bytes :: "u32 \<Rightarrow> buffer" where
  "be32_bytes w = [ucast (drop_bit 24 w), ucast (drop_bit 16 w), ucast (drop_bit 8 w), ucast w]"

definition chunks :: "nat \<Rightarrow> 'a list \<Rightarrow> 'a list list" where
  "chunks k xs = map (\<lambda>i. take k (drop (k * i) xs)) [0..<length xs div k]"

text \<open>The message schedule: \<open>k\<close> more words appended to \<open>w\<close>.\<close>

fun sha256_schedule :: "nat \<Rightarrow> u32 list \<Rightarrow> u32 list" where
  "sha256_schedule 0 w = w"
| "sha256_schedule (Suc k) w =
     (let n = length w
      in sha256_schedule k
           (w @ [sigma1 (w ! (n - 2)) + w ! (n - 7) + sigma0 (w ! (n - 15)) + w ! (n - 16)]))"

fun sha256_round :: "u32 \<times> u32 \<Rightarrow> u32 list \<Rightarrow> u32 list" where
  "sha256_round (k, w) [a, b, c, d, e, f, g, h] =
     (let t1 = h + Sigma1 e + Ch e f g + k + w;
          t2 = Sigma0 a + Maj a b c
      in [t1 + t2, a, b, c, d + t1, e, f, g])"
| "sha256_round kw s = s"

definition sha256_compress :: "buffer \<Rightarrow> u32 list \<Rightarrow> u32 list" where
  "sha256_compress block h =
     (let w = sha256_schedule 48 (map be32_word (chunks 4 block))
      in map2 (+) h (fold sha256_round (zip K256 w) h))"

definition sha256_pad :: "buffer \<Rightarrow> buffer" where
  "sha256_pad msg =
     msg @ [128] @ replicate ((119 - length msg mod 64) mod 64) 0 @
     map (\<lambda>i. of_nat ((8 * length msg) div 256 ^ (7 - i))) [0..<8]"

definition SHA256 :: "buffer \<Rightarrow> buffer" where
  "SHA256 msg = concat (map be32_bytes (fold sha256_compress (chunks 64 (sha256_pad msg)) H256))"

subsection \<open>HMAC and PBKDF2\<close>

definition hmac_sha256 :: "buffer \<Rightarrow> buffer \<Rightarrow> buffer" where
  "hmac_sha256 key msg =
     (let k0 = (if length key > 64 then SHA256 key else key);
          k = k0 @ replicate (64 - length k0) 0
      in SHA256 (map (\<lambda>x. x XOR 92) k @ SHA256 (map (\<lambda>x. x XOR 54) k @ msg)))"

text \<open>
  PBKDF2 over a pseudorandom function \<open>prf\<close> whose output has \<open>hlen\<close> bytes.
  \<open>pbkdf2_iter prf p n u acc\<close> applies \<open>prf\<close> to \<open>u\<close> another \<open>n\<close> times and folds every
  result into \<open>acc\<close> with exclusive or; the \<open>i\<close>-th block of the key starts from the
  salt followed by \<open>i\<close> as a big-endian word.
\<close>

fun pbkdf2_iter ::
  "(buffer \<Rightarrow> buffer \<Rightarrow> buffer) \<Rightarrow> buffer \<Rightarrow> nat \<Rightarrow> buffer \<Rightarrow> buffer \<Rightarrow> buffer" where
  "pbkdf2_iter prf p 0 u acc = acc"
| "pbkdf2_iter prf p (Suc n) u acc =
     (let u' = prf p u in pbkdf2_iter prf p n u' (map2 (XOR) acc u'))"

definition pbkdf2_block ::
  "(buffer \<Rightarrow> buffer \<Rightarrow> buffer) \<Rightarrow> buffer \<Rightarrow> buffer \<Rightarrow> nat \<Rightarrow> nat \<Rightarrow> buffer" where
  "pbkdf2_block prf p s c i =
     (let u1 = prf p (s @ be32_bytes (of_nat i)) in pbkdf2_iter prf p (c - 1) u1 u1)"

definition PBKDF2 ::
  "(buffer \<Rightarrow> buffer \<Rightarrow> buffer) \<Rightarrow> nat \<Rightarrow> buffer \<Rightarrow> buffer \<Rightarrow> nat \<Rightarrow> nat \<Rightarrow> buffer" where
  "PBKDF2 prf hlen p s c dklen =
     take dklen (concat (map (pbkdf2_block prf p s c) [1..<Suc ((dklen + hlen - 1) div hlen)]))"

subsection \<open>\<open>pbkdf2Sync\<close> and \<open>Th\<close>\<close>

datatype error =
    ERR_OUT_OF_RANGE
  | ERR_CRYPTO_INVALID_DIGEST
  | ERR_CRYPTO_INVALID_KEYLEN
  | ERR_CRYPTO_INVALID_IV

text \<open>
  \<open>pbkdf2Sync(password, salt, iterations, keylen, digest)\<close> throws when \<open>iterations\<close> is not
  positive.  Of the digests only \<open>"sha256"\<close>, the one the source passes, is modelled.
\<close>

definition pbkdf2Sync ::
  "jsstring \<Rightarrow> buffer \<Rightarrow> nat \<Rightarrow> nat \<Rightarrow> jsstring \<Rightarrow> error + buffer" where
  "pbkdf2Sync password salt iterations keylen digest =
     (if iterations = 0 then Inl ERR_OUT_OF_RANGE
      else if digest \<noteq> js ''sha256'' then Inl ERR_CRYPTO_INVALID_DIGEST
      else Inr (PBKDF2 hmac_sha256 32 (Buffer_from_string password) salt iterations keylen))"

definition Th :: "jsstring \<Rightarrow> error + buffer" where
  "Th n = pbkdf2Sync n (Buffer_from_string (Fl Hr_r Hr_m)) 100000 32 (js ''sha256'')"

section \<open>The token encipherer\<close>

subsection \<open>AES-256 (FIPS 197)\<close>

text \<open>
  The block cipher behind \<open>createCipheriv("aes-256-cbc", key, iv)\<close>.  The state is the
  sixteen bytes of a block in input order, column after column.
\<close>

text \<open>The S-box, as the table of its 256 values.\<close>

definition sbox_table :: "nat list" where
  "sbox_table =
    [99, 124, 119, 123, 242, 107, 111, 197, 48, 1, 103, 43, 254, 215, 171, 118, 202, 130, 201,
     125, 250, 89, 71, 240, 173, 212, 162, 175, 156, 164, 114, 192, 183, 253, 147, 38, 54, 63,
     247, 204, 52, 165, 229, 241, 113, 216, 49, 21, 4, 199, 35, 195, 24, 150, 5, 154, 7, 18,
     128, 226, 235, 39, 178, 117, 9, 131, 44, 26, 27, 110, 90, 160, 82, 59, 214, 179, 41, 227,
     47, 132, 83, 209, 0, 237, 32, 252, 177, 91, 106, 203, 190, 57, 74, 76, 88, 207, 208, 239,
     170, 251, 67, 77, 51, 133, 69, 249, 2, 127, 80, 60, 159, 168, 81, 163, 64, 143, 146, 157,
     56, 245, 188, 182, 218, 33, 16, 255, 243, 210, 205, 12, 19, 236, 95, 151, 68, 23, 196,
     167, 126, 61, 100, 93, 25, 115, 96, 129, 79, 220, 34, 42, 144, 136, 70, 238, 184, 20, 222,
     94, 11, 219, 224, 50, 58, 10, 73, 6, 36, 92, 194, 211, 172, 98, 145, 149, 228, 121, 231,
     200, 55, 109, 141, 213, 78, 169, 108, 86, 244, 234, 101, 122, 174, 8, 186, 120, 37, 46,
     28, 166, 180, 198, 232, 221, 116, 31, 75, 189, 139, 138, 112, 62, 181, 102, 72, 3, 246,
     14, 97, 53, 87, 185, 134, 193, 29, 158, 225, 248, 152, 17, 105, 217, 142, 148, 155, 30,
     135, 233, 206, 85, 40, 223, 140, 161, 137, 13, 191, 230, 66, 104, 65, 153, 45, 15, 176,
     84, 187, 22]"

definition sbox :: "byte \<Rightarrow> byte" where
  "sbox x = of_nat (sbox_table ! unat x)"

definition SubBytes :: "buffer \<Rightarrow> buffer" where
  "SubBytes s = map sbox s"

fun ShiftRows :: "buffer \<Rightarrow> buffer" where
  "ShiftRows [s0, s1, s2, s3, s4, s5, s6, s7, s8, s9, s10, s11, s12, s13, s14, s15] =
     [s0, s5, s10, s15, s4, s9, s14, s3, s8, s13, s2, s7, s12, s1, s6, s11]"
| "ShiftRows s = s"

text \<open>Multiplication by \<open>x\<close> in the field: a shift, reduced by the AES polynomial.\<close>

definition xtime :: "byte \<Rightarrow> byte" where
  "xtime a = (if bit a 7 then push_bit 1 a XOR 27 else push_bit 1 a)"

definition mix_column :: "byte \<Rightarrow> byte \<Rightarrow> byte \<Rightarrow> byte \<Rightarrow> buffer" where
  "mix_column a0 a1 a2 a3 =
     [xtime a0 XOR (xtime a1 XOR a1) XOR a2 XOR a3,
      a0 XOR xtime a1 XOR (xtime a2 XOR a2) XOR a3,
      a0 XOR a1 XOR xtime a2 XOR (xtime a3 XOR a3),
      (xtime a0 XOR a0) XOR a1 XOR a2 XOR xtime a3]"

fun MixColumns :: "buffer \<Rightarrow> buffer" where
  "MixColumns [s0, s1, s2, s3, s4, s5, s6, s7, s8, s9, s10, s11, s12, s13, s14, s15] =
     mix_column s0 s1 s2 s3 @ mix_column s4 s5 s6 s7 @
     mix_column s8 s9 s10 s11 @ mix_column s12 s13 s14 s15"
| "MixColumns s = s"

definition AddRoundKey :: "buffer \<Rightarrow> buffer \<Rightarrow> buffer" where
  "AddRoundKey k s = map2 (XOR) s k"

subsubsection \<open>Key expansion\<close>

definition SubWord :: "u32 \<Rightarrow> u32" where
  "SubWord w = be32_word (map sbox (be32_bytes w))"

definition RotWord :: "u32 \<Rightarrow> u32" where
  "RotWord w = word_rotl 8 w"

definition Rcon :: "nat \<Rightarrow> u32" where
  "Rcon i = push_bit 24 (2 ^ (i - 1))"

fun key_expansion :: "nat \<Rightarrow> u32 list \<Rightarrow> u32 list" where
  "key_expansion 0 w = w"
| "key_expansion (Suc k) w =
     (let i = length w;
          temp = w ! (i - 1);
          t = (if i mod 8 = 0 then SubWord (RotWord temp) XOR Rcon (i div 8)
               else if i mod 8 = 4 then SubWord temp
               else temp)
      in key_expansion k (w @ [w ! (i - 8) XOR t]))"

definition round_keys :: "buffer \<Rightarrow> buffer list" where
  "round_keys key =
     chunks 16 (concat (map be32_bytes (key_expansion 52 (map be32_word (chunks 4 key)))))"

subsubsection \<open>The cipher\<close>

definition aes_round :: "buffer \<Rightarrow> buffer \<Rightarrow> buffer" where
  "aes_round k s = AddRoundKey k (MixColumns (ShiftRows (SubBytes s)))"

definition aes_final_round :: "buffer \<Rightarrow> buffer \<Rightarrow> buffer" where
  "aes_final_round k s = AddRoundKey k (ShiftRows (SubBytes s))"

definition aes_encrypt_block :: "buffer list \<Rightarrow> buffer \<Rightarrow> buffer" where
  "aes_encrypt_block rks b =
     aes_final_round (last rks) (fold aes_round (butlast (tl rks)) (AddRoundKey (hd rks) b))"

subsection \<open>The cipher object\<close>

text \<open>
  \<open>createCipheriv("aes-256-cbc", key, iv)\<close> throws unless the key has 32 bytes and the
  initialisation vector 16.  The object holds the round keys, the previous ciphertext
  block (the vector at first) and the input bytes that do not yet fill a block.
\<close>

record cipher =
  rks :: "buffer list"
  prev :: buffer
  pending :: buffer

definition createCipheriv :: "buffer \<Rightarrow> buffer \<Rightarrow> error + cipher" where
  "createCipheriv key iv =
     (if length key \<noteq> 32 then Inl ERR_CRYPTO_INVALID_KEYLEN
      else if length iv \<noteq> 16 then Inl ERR_CRYPTO_INVALID_IV
      else Inr \<lparr>rks = round_keys key, prev = iv, pending = []\<rparr>)"

text \<open>Cipher block chaining: every block is combined with the previous ciphertext block.\<close>

fun cbc_blocks :: "buffer list \<Rightarrow> buffer \<Rightarrow> buffer list \<Rightarrow> buffer list" where
  "cbc_blocks ks p [] = []"
| "cbc_blocks ks p (b # bs) =
     (let c = aes_encrypt_block ks (map2 (XOR) b p) in c # cbc_blocks ks c bs)"

text \<open>
  \<open>update\<close> encrypts the complete blocks of the input so far and keeps the rest;
  \<open>final\<close> pads what is kept to a full block (PKCS#7: \<open>k\<close> bytes of value \<open>k\<close>, a whole
  block of them when nothing is kept) and encrypts it.
\<close>

definition cipher_update :: "cipher \<Rightarrow> buffer \<Rightarrow> buffer \<times> cipher" where
  "cipher_update c data =
     (let buf = pending c @ data;
          bs = chunks 16 buf;
          out = cbc_blocks (rks c) (prev c) bs
      in (concat out,
          c\<lparr>prev := (if out = [] then prev c else last out),
            pending := drop (16 * length bs) buf\<rparr>))"

definition cipher_final :: "cipher \<Rightarrow> buffer" where
  "cipher_final c =
     (let k = 16 - length (pending c);
          b = pending c @ replicate k (of_nat k)
      in aes_encrypt_block (rks c) (map2 (XOR) b (prev c)))"

subsection \<open>Hexadecimal text\<close>

definition hex_digit :: "nat \<Rightarrow> 16 word" where
  "hex_digit d = (if d < 10 then of_nat (48 + d) else of_nat (87 + d))"

text \<open>\<open>buf.toString("hex")\<close>: two lowercase digits for every byte.\<close>

definition toString_hex :: "buffer \<Rightarrow> jsstring" where
  "toString_hex b = concat (map (\<lambda>x. [hex_digit (unat x div 16), hex_digit (unat x mod 16)]) b)"

text \<open>\<open>n.toString(16)\<close> of a number that is a natural number: no leading zero.\<close>

fun Number_toString16 :: "nat \<Rightarrow> jsstring" where
  "Number_toString16 n =
     (if n < 16 then [hex_digit n] else Number_toString16 (n div 16) @ [hex_digit (n mod 16)])"

declare Number_toString16.simps [simp del]

definition padStart :: "nat \<Rightarrow> jsstring \<Rightarrow> jsstring \<Rightarrow> jsstring" where
  "padStart k p s =
     (if k \<le> length s \<or> p = [] then s
      else take (k - length s) (concat (replicate (k - length s) p)) @ s)"

subsection \<open>Randomness\<close>

text \<open>
  The bytes a secure random generator hands out are an input of the model: a source
  gives the byte at every position of the request.  \<open>randomBytes(k)\<close> returns \<open>k\<close> bytes
  of it, \<open>getRandomValues(e)\<close> fills the whole array \<open>e\<close>.
\<close>

type_synonym entropy = "nat \<Rightarrow> byte"

definition randomBytes :: "entropy \<Rightarrow> nat \<Rightarrow> buffer" where
  "randomBytes rnd k = map rnd [0..<k]"

definition getRandomValues :: "entropy \<Rightarrow> buffer \<Rightarrow> buffer" where
  "getRandomValues rnd e = map rnd [0..<length e]"

subsection \<open>\<open>JSON.stringify\<close>\<close>

text \<open>
  \<open>QuoteJSONString\<close>: the two-character escapes, \<open>\u\<close> and four lowercase hexadecimal
  digits for the other control characters and for a surrogate without its partner, and
  every other character as it is.
\<close>

definition hex4 :: "nat \<Rightarrow> jsstring" where
  "hex4 u = [hex_digit (u div 4096), hex_digit (u div 256 mod 16), hex_digit (u div 16 mod 16),
             hex_digit (u mod 16)]"

definition json_escape :: "nat \<Rightarrow> jsstring" where
  "json_escape u =
     (if u = 8 then [92, 98]
      else if u = 9 then [92, 116]
      else if u = 10 then [92, 110]
      else if u = 12 then [92, 102]
      else if u = 13 then [92, 114]
      else if u = 34 then [92, 34]
      else if u = 92 then [92, 92]
      else if u < 32 \<or> (55296 \<le> u \<and> u \<le> 57343) then [92, 117] @ hex4 u
      else [of_nat u])"

fun json_quote_units :: "nat list \<Rightarrow> jsstring" where
  "json_quote_units [] = []"
| "json_quote_units (u # us) =
     (if 55296 \<le> u \<and> u \<le> 56319 then
        (case us of
           [] \<Rightarrow> json_escape u
         | v # vs \<Rightarrow>
             if 56320 \<le> v \<and> v \<le> 57343 then [of_nat u, of_nat v] @ json_quote_units vs
             else json_escape u @ json_quote_units us)
      else json_escape u @ json_quote_units us)"

definition QuoteJSONString :: "jsstring \<Rightarrow> jsstring" where
  "QuoteJSONString s = [34] @ json_quote_units (map unat s) @ [34]"

fun join :: "jsstring \<Rightarrow> jsstring list \<Rightarrow> jsstring" where
  "join sep [] = []"
| "join sep [x] = x"
| "join sep (x # y # ys) = x @ sep @ join sep (y # ys)"

text \<open>
  An object whose properties all hold strings, as the list of its properties in
  insertion order.  \<open>JSON.stringify\<close> writes them in that order, without white space.
\<close>

type_synonym jsobject = "(jsstring \<times> jsstring) list"

definition JSON_stringify :: "jsobject \<Rightarrow> jsstring" where
  "JSON_stringify obj =
     js ''{'' @ join (js '','') (map (\<lambda>(k, v). QuoteJSONString k @ js '':'' @ QuoteJSONString v) obj)
     @ js ''}''"

subsection \<open>\<open>kh\<close>\<close>

record payload =
  userId :: jsstring
  clientUUID :: jsstring

text \<open>
  \<open>{...n, apiKey: Fl(jr.r, jr.m)}\<close>: the properties of the payload in their order, then
  \<open>apiKey\<close>.
\<close>

definition with_apiKey :: "payload \<Rightarrow> jsstring \<Rightarrow> jsobject" where
  "with_apiKey n k =
     [(js ''userId'', userId n), (js ''clientUUID'', clientUUID n), (js ''apiKey'', k)]"

definition kh :: "entropy \<Rightarrow> payload \<Rightarrow> error + jsstring" where
  "kh rnd n =
     (case Th (userId n) of
        Inl err \<Rightarrow> Inl err
      | Inr e \<Rightarrow>
          (let t = randomBytes rnd Sh
           in case createCipheriv e t of
                Inl err \<Rightarrow> Inl err
              | Inr s \<Rightarrow>
                  (let text = JSON_stringify (with_apiKey n (Fl jr_r jr_m));
                       (o1, s1) = cipher_update s (Buffer_from_string text);
                       o2 = o1 @ cipher_final s1
                   in Inr (toString_hex t @ js '':'' @ toString_hex o2))))"

section \<open>The identifier assembler\<close>

text \<open>\<open>H7t(t = 12)\<close>: \<open>t\<close> random bytes, each as two hexadecimal digits.\<close>

definition H7t :: "entropy \<Rightarrow> nat \<Rightarrow> jsstring" where
  "H7t rnd t =
     (let e = getRandomValues rnd (replicate t 0)
      in concat (map (\<lambda>n. padStart 2 (js ''0'') (Number_toString16 (unat n))) e))"

text \<open>
  \<open>get_identifier\<close> draws the initialisation vector inside \<open>kh\<close> and the nonce inside
  \<open>H7t\<close>; the two come from two generators, so the model takes two sources.
\<close>

definition get_identifier :: "entropy \<Rightarrow> entropy \<Rightarrow> jsstring \<Rightarrow> jsstring \<Rightarrow> error + jsstring" where
  "get_identifier rnd_iv rnd_nonce uid cid =
     (case kh rnd_iv \<lparr>userId = uid, clientUUID = cid\<rparr> of
        Inl err \<Rightarrow> Inl err
      | Inr t \<Rightarrow> Inr (H7t rnd_nonce 12 @ js '':'' @ t))"

section \<open>The decrypter\<close>

text \<open>
  Modelled from the spec: the repository has no decrypter; the specification asks the
  collaborator for one that splits the token at the first colon, decodes both halves
  from hexadecimal, derives the key from the same \<open>userId\<close> and runs AES-256-CBC
  decryption with PKCS#7 unpadding.  The inverse cipher is that of FIPS 197.
\<close>

subsection \<open>The inverse cipher\<close>

fun index_of :: "'a list \<Rightarrow> 'a \<Rightarrow> nat" where
  "index_of [] y = 0"
| "index_of (x # xs) y = (if x = y then 0 else Suc (index_of xs y))"

text \<open>The inverse S-box: the position of a byte in the S-box table.\<close>

definition inv_sbox :: "byte \<Rightarrow> byte" where
  "inv_sbox y = of_nat (index_of sbox_table (unat y))"

definition InvSubBytes :: "buffer \<Rightarrow> buffer" where
  "InvSubBytes s = map inv_sbox s"

fun InvShiftRows :: "buffer \<Rightarrow> buffer" where
  "InvShiftRows [t0, t1, t2, t3, t4, t5, t6, t7, t8, t9, t10, t11, t12, t13, t14, t15] =
     [t0, t13, t10, t7, t4, t1, t14, t11, t8, t5, t2, t15, t12, t9, t6, t3]"
| "InvShiftRows s = s"

text \<open>Multiplication by 9, 11, 13 and 14 in the field, from repeated \<open>xtime\<close>.\<close>

definition mul9 :: "byte \<Rightarrow> byte" where
  "mul9 a = xtime (xtime (xtime a)) XOR a"

definition mul11 :: "byte \<Rightarrow> byte" where
  "mul11 a = xtime (xtime (xtime a)) XOR xtime a XOR a"

definition mul13 :: "byte \<Rightarrow> byte" where
  "mul13 a = xtime (xtime (xtime a)) XOR xtime (xtime a) XOR a"

definition mul14 :: "byte \<Rightarrow> byte" where
  "mul14 a = xtime (xtime (xtime a)) XOR xtime (xtime a) XOR xtime a"

definition inv_mix_column :: "byte \<Rightarrow> byte \<Rightarrow> byte \<Rightarrow> byte \<Rightarrow> buffer" where
  "inv_mix_column b0 b1 b2 b3 =
     [mul14 b0 XOR mul11 b1 XOR mul13 b2 XOR mul9 b3,
      mul9 b0 XOR mul14 b1 XOR mul11 b2 XOR mul13 b3,
      mul13 b0 XOR mul9 b1 XOR mul14 b2 XOR mul11 b3,
      mul11 b0 XOR mul13 b1 XOR mul9 b2 XOR mul14 b3]"

fun InvMixColumns :: "buffer \<Rightarrow> buffer" where
  "InvMixColumns [s0, s1, s2, s3, s4, s5, s6, s7, s8, s9, s10, s11, s12, s13, s14, s15] =
     inv_mix_column s0 s1 s2 s3 @ inv_mix_column s4 s5 s6 s7 @
     inv_mix_column s8 s9 s10 s11 @ inv_mix_column s12 s13 s14 s15"
| "InvMixColumns s = s"

definition aes_inv_round :: "buffer \<Rightarrow> buffer \<Rightarrow> buffer" where
  "aes_inv_round k s = InvSubBytes (InvShiftRows (InvMixColumns (AddRoundKey k s)))"

definition aes_inv_final_round :: "buffer \<Rightarrow> buffer \<Rightarrow> buffer" where
  "aes_inv_final_round k s = InvSubBytes (InvShiftRows (AddRoundKey k s))"

definition aes_decrypt_block :: "buffer list \<Rightarrow> buffer \<Rightarrow> buffer" where
  "aes_decrypt_block ks c =
     AddRoundKey (hd ks)
       (fold aes_inv_round (rev (butlast (tl ks))) (aes_inv_final_round (last ks) c))"

subsection \<open>CBC and PKCS#7\<close>

text \<open>
  AES-256-CBC with PKCS#7 padding as the standards word it: the data is padded with \<open>k\<close>
  bytes of value \<open>k\<close> up to the next multiple of 16, and every block is combined with
  the ciphertext block before it.
\<close>

definition pkcs7_pad :: "buffer \<Rightarrow> buffer" where
  "pkcs7_pad d = (let k = 16 - length d mod 16 in d @ replicate k (of_nat k))"

definition cbc_encrypt :: "buffer \<Rightarrow> buffer \<Rightarrow> buffer \<Rightarrow> buffer" where
  "cbc_encrypt key iv d = concat (cbc_blocks (round_keys key) iv (chunks 16 (pkcs7_pad d)))"

fun cbc_unblocks :: "buffer list \<Rightarrow> buffer \<Rightarrow> buffer list \<Rightarrow> buffer list" where
  "cbc_unblocks ks p [] = []"
| "cbc_unblocks ks p (c # cs) = map2 (XOR) (aes_decrypt_block ks c) p # cbc_unblocks ks c cs"

definition pkcs7_unpad :: "buffer \<Rightarrow> buffer option" where
  "pkcs7_unpad d =
     (if d = [] then None
      else (let k = unat (last d)
            in if k = 0 \<or> 16 < k \<or> length d < k then None
               else if drop (length d - k) d = replicate k (last d)
               then Some (take (length d - k) d)
               else None))"

definition cbc_decrypt :: "buffer \<Rightarrow> buffer \<Rightarrow> buffer \<Rightarrow> buffer option" where
  "cbc_decrypt key iv c =
     (if length key \<noteq> 32 \<or> length iv \<noteq> 16 \<or> c = [] \<or> length c mod 16 \<noteq> 0 then None
      else pkcs7_unpad (concat (cbc_unblocks (round_keys key) iv (chunks 16 c))))"

subsection \<open>Reading the token\<close>

definition hex_value :: "nat \<Rightarrow> nat option" where
  "hex_value u =
     (if 48 \<le> u \<and> u \<le> 57 then Some (u - 48)
      else if 97 \<le> u \<and> u \<le> 102 then Some (u - 87)
      else if 65 \<le> u \<and> u \<le> 70 then Some (u - 55)
      else None)"

fun hex_decode :: "jsstring \<Rightarrow> buffer option" where
  "hex_decode [] = Some []"
| "hex_decode [x] = None"
| "hex_decode (a # b # rest) =
     (case hex_value (unat a) of
        None \<Rightarrow> None
      | Some h \<Rightarrow>
          (case hex_value (unat b) of
             None \<Rightarrow> None
           | Some l \<Rightarrow>
               (case hex_decode rest of
                  None \<Rightarrow> None
                | Some bs \<Rightarrow> Some (of_nat (16 * h + l) # bs))))"

text \<open>The text before and after the first occurrence of a character.\<close>

fun split_first :: "16 word \<Rightarrow> jsstring \<Rightarrow> (jsstring \<times> jsstring) option" where
  "split_first c [] = None"
| "split_first c (x # xs) =
     (if x = c then Some ([], xs)
      else (case split_first c xs of None \<Rightarrow> None | Some (a, b) \<Rightarrow> Some (x # a, b)))"

definition decrypt :: "jsstring \<Rightarrow> jsstring \<Rightarrow> buffer option" where
  "decrypt token uid =
     (case split_first 58 token of
        None \<Rightarrow> None
      | Some (iv_hex, ct_hex) \<Rightarrow>
          (case hex_decode iv_hex of
             None \<Rightarrow> None
           | Some iv \<Rightarrow>
               (case hex_decode ct_hex of
                  None \<Rightarrow> None
                | Some ct \<Rightarrow>
                    (case Th uid of
                       Inl err \<Rightarrow> None
                     | Inr key \<Rightarrow> cbc_decrypt key iv ct))))"

section \<open>The wire format, as the specification words it\<close>

text \<open>A lowercase hexadecimal digit: \<open>0\<close> to \<open>9\<close> or \<open>a\<close> to \<open>f\<close>.\<close>

definition is_lower_hex :: "16 word \<Rightarrow> bool" where
  "is_lower_hex u = (48 \<le> unat u \<and> unat u \<le> 57 \<or> 97 \<le> unat u \<and> unat u \<le> 102)"

text \<open>The fields of a text between the occurrences of a separator, as \<open>split\<close> gives them.\<close>

fun split_on :: "16 word \<Rightarrow> jsstring \<Rightarrow> jsstring list" where
  "split_on c [] = [[]]"
| "split_on c (x # xs) =
     (if x = c then [] # split_on c xs
      else (case split_on c xs of [] \<Rightarrow> [[x]] | f # fs \<Rightarrow> (x # f) # fs))"

text \<open>
  The plaintext of a token: compact JSON with the keys \<open>userId\<close>, \<open>clientUUID\<close> and
  \<open>apiKey\<close> in this order, the values as JSON string literals.
\<close>

definition wire_text :: "jsstring \<Rightarrow> jsstring \<Rightarrow> jsstring \<Rightarrow> jsstring" where
  \<open>wire_text uid cid key =
     js ''{"userId":'' @ QuoteJSONString uid @
     js '',"clientUUID":'' @ QuoteJSONString cid @
     js '',"apiKey":'' @ QuoteJSONString key @ js ''}''\<close>

section \<open>The forward scrambling procedure\<close>

text \<open>
  Modelled from the spec: the repository holds the two scrambled tables but not the
  procedure that made them.  The specification describes it as the inverse of the
  descrambler: the bytes of the secret are reversed and encoded as standard base64, and
  the bytes \<open>t\<close> of that text are laid out so that \<open>r[s]\<close> is read back into position
  \<open>m[s]\<close>, that is \<open>r[s] = t[m[s]]\<close>.
\<close>

subsection \<open>Standard base64\<close>

definition b64_char :: "nat \<Rightarrow> nat" where
  "b64_char v =
     (if v < 26 then 65 + v
      else if v < 52 then 71 + v
      else if v < 62 then v - 4
      else if v = 62 then 43
      else 47)"

fun b64_encode :: "nat list \<Rightarrow> nat list" where
  "b64_encode (a # b # c # rest) =
     b64_char (a div 4) # b64_char ((a mod 4) * 16 + b div 16) #
     b64_char ((b mod 16) * 4 + c div 64) # b64_char (c mod 64) # b64_encode rest"
| "b64_encode [a, b] =
     [b64_char (a div 4), b64_char ((a mod 4) * 16 + b div 16), b64_char ((b mod 16) * 4), 61]"
| "b64_encode [a] = [b64_char (a div 4), b64_char ((a mod 4) * 16), 61, 61]"
| "b64_encode [] = []"

definition toString_base64 :: "buffer \<Rightarrow> jsstring" where
  "toString_base64 b = map of_nat (b64_encode (map unat b))"

subsection \<open>Scrambling\<close>

definition scramble :: "buffer \<Rightarrow> nat list \<Rightarrow> int list" where
  "scramble secret m =
     (let t = Buffer_from_string (toString_base64 (rev secret))
      in map (\<lambda>s. uint (t ! (m ! s))) [0..<length m])"

subsection \<open>Well-formed text\<close>

text \<open>
  A Unicode scalar value: a code point that is not a surrogate.  A string is well-formed
  when every surrogate in it is part of a pair; exactly these strings are text that
  UTF-8 can represent.
\<close>

definition scalar :: "nat \<Rightarrow> bool" where
  "scalar cp = (cp < 1114112 \<and> \<not> (55296 \<le> cp \<and> cp \<le> 57343))"

fun well_formed_utf16 :: "nat list \<Rightarrow> bool" where
  "well_formed_utf16 [] = True"
| "well_formed_utf16 (u # us) =
     (if 55296 \<le> u \<and> u \<le> 56319 then
        (case us of
           [] \<Rightarrow> False
         | v # vs \<Rightarrow> 56320 \<le> v \<and> v \<le> 57343 \<and> well_formed_utf16 vs)
      else \<not> (56320 \<le> u \<and> u \<le> 57343) \<and> well_formed_utf16 us)"

definition well_formed :: "jsstring \<Rightarrow> bool" where
  "well_formed s = well_formed_utf16 (map unat s)"

section \<open>Properties of the descrambler\<close>

subsection \<open>The permutations of the constant tables\<close>

lemma Hr_perm: "permutation_of Hr_m (length Hr_r)"
proof -
  have l: "length Hr_r = 32" by (simp add: Hr_r_def)
  have 1: "length Hr_m = 32" by (simp add: Hr_m_def)
  have 2: "distinct Hr_m" by (simp add: Hr_m_def)
  have 3: "set Hr_m = {..<32}"
    by (simp add: Hr_m_def lessThan_nat_numeral lessThan_Suc insert_commute)
  show ?thesis unfolding permutation_of_def l using 1 2 3 by (intro conjI)
qed

lemma jr_perm: "permutation_of jr_m (length jr_r)"
proof -
  have l: "length jr_r = 88" by (simp add: jr_r_def)
  have 1: "length jr_m = 88" by (simp add: jr_m_def)
  have 2: "distinct jr_m" by (simp add: jr_m_def)
  have 3: "set jr_m = {..<88}"
    by (simp add: jr_m_def lessThan_nat_numeral lessThan_Suc insert_commute)
  show ?thesis unfolding permutation_of_def l using 1 2 3 by (intro conjI)
qed

text \<open>
  C9.  In both constant tables, \<open>Hr\<close> (the salt) and \<open>jr\<close> (the credential), the
  permutation \<open>m\<close> is as long as the value array \<open>r\<close> and every index below that length
  occurs in \<open>m\<close> exactly once.
\<close>

theorem constant_tables_bijective:
  "permutation_of Hr_m (length Hr_r) \<and> permutation_of jr_m (length jr_r)"
  using Hr_perm jr_perm by (rule conjI)

subsection \<open>The loop of \<open>Ah\<close>\<close>

lemma length_arr_set_in: "i < length t \<Longrightarrow> length (arr_set t i v) = length t"
  by (simp add: arr_set_def)

lemma nth_arr_set_in:
  "i < length t \<Longrightarrow> j < length t \<Longrightarrow> arr_set t i v ! j = (if j = i then v else t ! j)"
  by (simp add: arr_set_def)

text \<open>
  After \<open>k\<close> rounds of the loop the array still has the length of \<open>n\<close>, and the entries
  written so far are in place: no later round has overwritten an earlier one, because the
  destinations are distinct.
\<close>

lemma Ah_loop_inv:
  assumes d: "distinct e" and b: "\<forall>x\<in>set e. x < length n" and l: "length e \<le> length n"
    and k: "k \<le> length e"
  defines "t \<equiv> fold (\<lambda>s t. arr_set t (e ! s) (arr_get n s)) [0..<k] (replicate (length n) None)"
  shows "length t = length n \<and> (\<forall>s<k. t ! (e ! s) = Some (n ! s))"
  using k unfolding t_def
proof (induction k)
  case 0
  then show ?case by simp
next
  case (Suc k)
  let ?t = "fold (\<lambda>s t. arr_set t (e ! s) (arr_get n s)) [0..<k] (replicate (length n) None)"
  from Suc have ih: "length ?t = length n" "\<forall>s<k. ?t ! (e ! s) = Some (n ! s)"
    and kl: "k < length e"
    by simp_all
  from kl b have ek: "e ! k < length n" by simp
  have g: "arr_get n k = Some (n ! k)" using kl l by (simp add: arr_get_def)
  have len: "length (arr_set ?t (e ! k) (arr_get n k)) = length n"
    using ek ih(1) by (simp add: length_arr_set_in)
  have "arr_set ?t (e ! k) (arr_get n k) ! (e ! s) = Some (n ! s)" if "s < Suc k" for s
  proof (cases "s = k")
    case True
    then show ?thesis using ek ih(1) g by (simp add: nth_arr_set_in)
  next
    case False
    with that have sk: "s < k" by simp
    then have "e ! s \<noteq> e ! k" using d kl by (simp add: nth_eq_iff_index_eq)
    moreover have "e ! s < length n" using b sk kl by simp
    ultimately show ?thesis using ek ih sk by (simp add: nth_arr_set_in)
  qed
  then show ?case using len by simp
qed

lemma Ah_permutation:
  assumes "permutation_of m (length r)"
  shows "length (Ah r m) = length r"
    and "\<forall>s<length r. Ah r m ! (m ! s) = Some (r ! s)"
    and "Ah r m = map Some (map the (Ah r m))"
proof -
  from assms have p: "length m = length r" "distinct m" "set m = {..<length r}"
    by (simp_all add: permutation_of_def)
  have b: "\<forall>x\<in>set m. x < length r" using p(3) by simp
  have inv: "length (Ah r m) = length r \<and> (\<forall>s<length m. Ah r m ! (m ! s) = Some (r ! s))"
    unfolding Ah_def by (rule Ah_loop_inv [OF p(2) b]) (simp_all add: p(1))
  show 1: "length (Ah r m) = length r" using inv by simp
  show 2: "\<forall>s<length r. Ah r m ! (m ! s) = Some (r ! s)" using inv p(1) by simp
  have "Ah r m ! j = Some (the (Ah r m ! j))" if "j < length r" for j
  proof -
    from that p(3) have "j \<in> set m" by simp
    then obtain s where "s < length m" "m ! s = j" by (auto simp: in_set_conv_nth)
    with 2 p(1) show ?thesis by auto
  qed
  then show "Ah r m = map Some (map the (Ah r m))"
    using 1 by (simp add: list_eq_iff_nth_eq)
qed

lemma Buffer_from_array_Some: "Buffer_from_array (map Some t) = map of_int t"
  by (simp add: Buffer_from_array_def to_uint8_def)

text \<open>
  C4.  For a table \<open>(r, m)\<close> whose \<open>m\<close> is a bijection as long as \<open>r\<close>, the descrambler
  builds the array \<open>t\<close> with \<open>t[m[s]] = r[s]\<close> for every index \<open>s\<close> (no entry is left
  empty), decodes \<open>t\<close> as UTF-8 text, decodes that text as base64 into bytes, reverses the
  bytes and returns their UTF-8 decoding.
\<close>

theorem descrambler_algorithm:
  assumes "permutation_of m (length r)"
  shows "\<exists>t. length t = length r \<and> (\<forall>s<length r. t ! (m ! s) = r ! s) \<and>
           Ah r m = map Some t \<and>
           Fl r m = toString_utf8 (rev (Buffer_from_base64 (toString_utf8 (map of_int t))))"
proof -
  let ?t = "map the (Ah r m)"
  note A = Ah_permutation [OF assms]
  from assms have p: "length m = length r" "set m = {..<length r}"
    by (simp_all add: permutation_of_def)
  have 1: "length ?t = length r" using A(1) by simp
  have 2: "\<forall>s<length r. ?t ! (m ! s) = r ! s"
  proof (intro allI impI)
    fix s assume s: "s < length r"
    then have "m ! s \<in> set m" using p(1) by simp
    then have "m ! s < length (Ah r m)" using p(2) A(1) by simp
    then show "?t ! (m ! s) = r ! s" using A(2) s by simp
  qed
  have "Fl r m = toString_utf8 (rev (Buffer_from_base64 (toString_utf8
          (Buffer_from_array (Ah r m)))))"
    by (simp add: Fl_def)
  also have "Buffer_from_array (Ah r m) = map of_int ?t"
    by (subst A(3)) (rule Buffer_from_array_Some)
  finally have 4: "Fl r m = toString_utf8 (rev (Buffer_from_base64 (toString_utf8
          (map of_int ?t))))" .
  from 1 2 A(3) 4 show ?thesis by blast
qed

theorem descrambler_algorithm_witness:
  "permutation_of Hr_m (length Hr_r) \<and>
   (\<exists>t. length t = length Hr_r \<and> (\<forall>s<length Hr_r. t ! (Hr_m ! s) = Hr_r ! s) \<and>
        Ah Hr_r Hr_m = map Some t \<and>
        Fl Hr_r Hr_m = toString_utf8 (rev (Buffer_from_base64 (toString_utf8 (map of_int t)))))"
  using Hr_perm descrambler_algorithm [OF Hr_perm] by (rule conjI)

subsection \<open>The two secrets\<close>

text \<open>
  Both tables hold ASCII text, so the descrambler can be followed stage by stage: the
  unscrambled array, its base64 decoding, and the reversed bytes as text.
\<close>

lemma Ah_eq_literal:
  assumes p: "permutation_of m (length r)" and l: "length X = length r"
    and e: "map ((!) X) m = r"
  shows "Ah r m = map Some X"
proof -
  note A = Ah_permutation [OF p]
  from p have pm: "length m = length r" "set m = {..<length r}"
    by (simp_all add: permutation_of_def)
  have "Ah r m ! j = Some (X ! j)" if "j < length r" for j
  proof -
    from that pm(2) have "j \<in> set m" by simp
    then obtain s where s: "s < length m" "m ! s = j" by (auto simp: in_set_conv_nth)
    have "r ! s = map ((!) X) m ! s" by (simp only: e)
    also have "\<dots> = X ! j" using s by simp
    finally show ?thesis using A(2) s pm(1) by auto
  qed
  then show ?thesis using A(1) l by (simp add: list_eq_iff_nth_eq)
qed

lemma utf8_decode_ascii: "\<forall>b\<in>set bs. b < 128 \<Longrightarrow> utf8_decode bs = bs"
  by (induction bs) simp_all

lemma utf16_units_bmp: "cp < 65536 \<Longrightarrow> utf16_units cp = [of_nat cp]"
  by (simp add: utf16_units_def)

lemma concat_utf16_units_ascii:
  "\<forall>b\<in>set bs. b < 128 \<Longrightarrow> concat (map utf16_units bs) = map of_nat bs"
  by (induction bs) (simp_all add: utf16_units_bmp)

lemma unat_of_nat_byte: "n < 256 \<Longrightarrow> unat (of_nat n :: byte) = n"
  by (simp add: unat_of_nat)

lemma unat_of_nat_unit: "n < 65536 \<Longrightarrow> unat (of_nat n :: 16 word) = n"
  by (simp add: unat_of_nat)

lemma toString_utf8_ascii:
  assumes "\<forall>b\<in>set bs. b < 128"
  shows "toString_utf8 (map of_nat bs) = map of_nat bs"
proof -
  have "map unat (map of_nat bs :: byte list) = bs"
    using assms by (induction bs) (simp_all add: unat_of_nat_byte)
  then show ?thesis
    using assms by (simp add: toString_utf8_def utf8_decode_ascii concat_utf16_units_ascii)
qed

lemma Buffer_from_base64_ascii:
  assumes "\<forall>b\<in>set bs. b < 128"
  shows "Buffer_from_base64 (map of_nat bs) = map of_nat (b64_bytes (b64_sextets bs))"
proof -
  have "map (\<lambda>u. unat u mod 256) (map of_nat bs :: jsstring) = bs"
    using assms by (induction bs) (simp_all add: unat_of_nat_unit)
  then show ?thesis by (simp add: Buffer_from_base64_def)
qed

lemma of_int_nat_list: "\<forall>x\<in>set X. 0 \<le> x \<Longrightarrow> map of_int X = map of_nat (map nat X)"
  by (induction X) simp_all

lemma Ah_Hr:
  "Ah Hr_r Hr_m = map Some [84, 69, 81, 121, 83, 85, 116, 107, 100, 108, 90, 70, 79, 85, 119, 53, 90,
  122, 78, 104, 82, 48, 56, 48, 79, 72, 78, 87, 87, 69, 107, 51]"
proof (rule Ah_eq_literal [OF Hr_perm])
  show "length [84, 69, 81, 121, 83, 85, 116, 107, 100, 108, 90, 70, 79, 85, 119, 53, 90,
  122, 78, 104, 82, 48, 56, 48, 79, 72, 78, 87, 87, 69, 107, 51 :: int] = length Hr_r"
    by (simp add: Hr_r_def)
  show "map ((!) [84, 69, 81, 121, 83, 85, 116, 107, 100, 108, 90, 70, 79, 85, 119, 53, 90,
  122, 78, 104, 82, 48, 56, 48, 79, 72, 78, 87, 87, 69, 107, 51]) Hr_m = Hr_r"
    by (simp add: Hr_r_def Hr_m_def)
qed

lemma b64_Hr:
  "b64_bytes (b64_sextets [84, 69, 81, 121, 83, 85, 116, 107, 100, 108, 90, 70, 79, 85, 119, 53, 90,
  122, 78, 104, 82, 48, 56, 48, 79, 72, 78, 87, 87, 69, 107, 51]) =
   [76, 68, 50, 73, 75, 100, 118, 86, 69, 57, 76, 57, 103, 51, 97, 71, 79, 52,
  56, 115, 86, 88, 73, 55]"
  by (simp add: unbase64_def)

lemma Fl_Hr: "Fl Hr_r Hr_m = js ''7IXVs84OGa3g9L9EVvdKI2DL''"
proof -
  let ?X = "[84, 69, 81, 121, 83, 85, 116, 107, 100, 108, 90, 70, 79, 85, 119, 53, 90,
  122, 78, 104, 82, 48, 56, 48, 79, 72, 78, 87, 87, 69, 107, 51] :: nat list"
  let ?Y = "[76, 68, 50, 73, 75, 100, 118, 86, 69, 57, 76, 57, 103, 51, 97, 71, 79, 52,
  56, 115, 86, 88, 73, 55] :: nat list"
  have 1: "Buffer_from_array (Ah Hr_r Hr_m) = map of_nat ?X"
    by (simp add: Ah_Hr Buffer_from_array_def to_uint8_def)
  have 2: "toString_utf8 (map of_nat ?X) = map of_nat ?X"
    by (rule toString_utf8_ascii) simp
  have 3: "Buffer_from_base64 (map of_nat ?X) = map of_nat ?Y"
    by (subst Buffer_from_base64_ascii) (simp_all only: b64_Hr, simp)
  have 4: "rev (map of_nat ?Y :: buffer) = map of_nat (rev ?Y)"
    by (rule rev_map)
  have 5: "toString_utf8 (map of_nat (rev ?Y)) = map of_nat (rev ?Y)"
    by (rule toString_utf8_ascii) simp
  have 6: "map of_nat (rev ?Y) = js ''7IXVs84OGa3g9L9EVvdKI2DL''"
    by (simp add: js_def)
  show ?thesis
    unfolding Fl_def Let_def 1 2 3 4 5 6 ..
qed

lemma Ah_jr:
  "Ah jr_r jr_m = map Some
    [89, 109, 81, 49, 77, 106, 107, 52, 89, 122, 78, 105, 89, 84, 69, 51, 78, 106, 66, 105,
     90, 106, 65, 53, 78, 122, 89, 51, 89, 50, 89, 53, 79, 68, 77, 52, 78, 50, 90, 108, 79,
     68, 74, 108, 89, 106, 103, 48, 77, 87, 89, 50, 77, 84, 65, 119, 77, 106, 81, 121, 90,
     87, 70, 105, 90, 87, 89, 53, 77, 122, 66, 106, 89, 50, 81, 49, 90, 106, 107, 120, 79,
     71, 86, 106, 78, 103, 61, 61]"
proof (rule Ah_eq_literal [OF jr_perm])
  show "length
    ([89, 109, 81, 49, 77, 106, 107, 52, 89, 122, 78, 105, 89, 84, 69, 51, 78, 106, 66, 105,
     90, 106, 65, 53, 78, 122, 89, 51, 89, 50, 89, 53, 79, 68, 77, 52, 78, 50, 90, 108, 79,
     68, 74, 108, 89, 106, 103, 48, 77, 87, 89, 50, 77, 84, 65, 119, 77, 106, 81, 121, 90,
     87, 70, 105, 90, 87, 89, 53, 77, 122, 66, 106, 89, 50, 81, 49, 90, 106, 107, 120, 79,
     71, 86, 106, 78, 103, 61, 61] :: int list) = length jr_r"
    by (simp add: jr_r_def)
  show "map ((!)
    [89, 109, 81, 49, 77, 106, 107, 52, 89, 122, 78, 105, 89, 84, 69, 51, 78, 106, 66, 105,
     90, 106, 65, 53, 78, 122, 89, 51, 89, 50, 89, 53, 79, 68, 77, 52, 78, 50, 90, 108, 79,
     68, 74, 108, 89, 106, 103, 48, 77, 87, 89, 50, 77, 84, 65, 119, 77, 106, 81, 121, 90,
     87, 70, 105, 90, 87, 89, 53, 77, 122, 66, 106, 89, 50, 81, 49, 90, 106, 107, 120, 79,
     71, 86, 106, 78, 103, 61, 61]) jr_m = jr_r"
    by (simp add: jr_r_def jr_m_def)
qed

lemma b64_jr:
  "b64_bytes (b64_sextets
    [89, 109, 81, 49, 77, 106, 107, 52, 89, 122, 78, 105, 89, 84, 69, 51, 78, 106, 66, 105,
     90, 106, 65, 53, 78, 122, 89, 51, 89, 50, 89, 53, 79, 68, 77, 52, 78, 50, 90, 108, 79,
     68, 74, 108, 89, 106, 103, 48, 77, 87, 89, 50, 77, 84, 65, 119, 77, 106, 81, 121, 90,
     87, 70, 105, 90, 87, 89, 53, 77, 122, 66, 106, 89, 50, 81, 49, 90, 106, 107, 120, 79,
     71, 86, 106, 78, 103, 61, 61]) =
    [98, 100, 53, 50, 57, 56, 99, 51, 98, 97, 49, 55, 54, 48, 98, 102, 48, 57, 55, 54, 55,
     99, 102, 57, 56, 51, 56, 55, 102, 101, 56, 50, 101, 98, 56, 52, 49, 102, 54, 49, 48, 48,
     50, 52, 50, 101, 97, 98, 101, 102, 57, 51, 48, 99, 99, 100, 53, 102, 57, 49, 56, 101,
     99, 54]"
  by (simp add: unbase64_def)

lemma Fl_jr:
  "Fl jr_r jr_m = js ''6ce819f5dcc039febae2420016f148be28ef78389fc76790fb0671ab3c8925db''"
proof -
  let ?X = "[89, 109, 81, 49, 77, 106, 107, 52, 89, 122, 78, 105, 89, 84, 69, 51, 78, 106, 66, 105,
     90, 106, 65, 53, 78, 122, 89, 51, 89, 50, 89, 53, 79, 68, 77, 52, 78, 50, 90, 108, 79,
     68, 74, 108, 89, 106, 103, 48, 77, 87, 89, 50, 77, 84, 65, 119, 77, 106, 81, 121, 90,
     87, 70, 105, 90, 87, 89, 53, 77, 122, 66, 106, 89, 50, 81, 49, 90, 106, 107, 120, 79,
     71, 86, 106, 78, 103, 61, 61] :: nat list"
  let ?Y = "[98, 100, 53, 50, 57, 56, 99, 51, 98, 97, 49, 55, 54, 48, 98, 102, 48, 57, 55, 54, 55,
     99, 102, 57, 56, 51, 56, 55, 102, 101, 56, 50, 101, 98, 56, 52, 49, 102, 54, 49, 48, 48,
     50, 52, 50, 101, 97, 98, 101, 102, 57, 51, 48, 99, 99, 100, 53, 102, 57, 49, 56, 101,
     99, 54] :: nat list"
  have 1: "Buffer_from_array (Ah jr_r jr_m) = map of_nat ?X"
    by (simp add: Ah_jr Buffer_from_array_def to_uint8_def)
  have 2: "toString_utf8 (map of_nat ?X) = map of_nat ?X"
    by (rule toString_utf8_ascii) simp
  have 3: "Buffer_from_base64 (map of_nat ?X) = map of_nat ?Y"
    by (subst Buffer_from_base64_ascii) (simp_all only: b64_jr, simp)
  have 4: "rev (map of_nat ?Y :: buffer) = map of_nat (rev ?Y)"
    by (rule rev_map)
  have 5: "toString_utf8 (map of_nat (rev ?Y)) = map of_nat (rev ?Y)"
    by (rule toString_utf8_ascii) simp
  have 6: "map of_nat (rev ?Y) =
      js ''6ce819f5dcc039febae2420016f148be28ef78389fc76790fb0671ab3c8925db''"
    by (simp add: js_def)
  show ?thesis
    unfolding Fl_def Let_def 1 2 3 4 5 6 ..
qed

section \<open>Properties of the key derivation\<close>

lemma length_sha256_round: "length (sha256_round kw s) = length s"
  by (induction kw s rule: sha256_round.induct) (simp_all add: Let_def)

lemma length_fold_sha256_round: "length (fold sha256_round kws s) = length s"
  by (induction kws arbitrary: s) (simp_all add: length_sha256_round)

lemma length_sha256_compress: "length h = 8 \<Longrightarrow> length (sha256_compress b h) = 8"
  by (simp add: sha256_compress_def Let_def length_fold_sha256_round)

lemma length_fold_sha256_compress: "length h = 8 \<Longrightarrow> length (fold sha256_compress bs h) = 8"
  by (induction bs arbitrary: h) (simp_all add: length_sha256_compress)

lemma length_concat_be32_bytes: "length (concat (map be32_bytes ws)) = 4 * length ws"
  by (induction ws) (simp_all add: be32_bytes_def)

lemma length_SHA256: "length (SHA256 msg) = 32"
proof -
  have "length (fold sha256_compress (chunks 64 (sha256_pad msg)) H256) = 8"
    by (rule length_fold_sha256_compress) (simp add: H256_def)
  then show ?thesis by (simp add: SHA256_def length_concat_be32_bytes)
qed

lemma length_hmac_sha256: "length (hmac_sha256 key msg) = 32"
  by (simp add: hmac_sha256_def Let_def length_SHA256)

lemma length_pbkdf2_iter:
  assumes "\<And>k m. length (prf k m) = h"
  shows "length u = h \<Longrightarrow> length acc = h \<Longrightarrow> length (pbkdf2_iter prf p n u acc) = h"
  by (induction n arbitrary: u acc) (simp_all add: Let_def assms)

lemma length_pbkdf2_block:
  assumes "\<And>k m. length (prf k m) = h"
  shows "length (pbkdf2_block prf p s c i) = h"
  by (simp add: pbkdf2_block_def Let_def length_pbkdf2_iter [OF assms] assms)

lemma PBKDF2_one_block:
  assumes "\<And>k m. length (prf k m) = h" and "0 < h"
  shows "PBKDF2 prf h p s c h = pbkdf2_block prf p s c 1"
proof -
  have "(h + h - 1) div h = 1" using assms(2) by (simp add: div_eq_dividend_iff Suc_1 div_nat_eqI)
  then have "[1..<Suc ((h + h - 1) div h)] = [1]" by (simp add: upt_rec)
  then show ?thesis
    by (simp add: PBKDF2_def length_pbkdf2_block [OF assms(1)])
qed

lemma length_PBKDF2_hmac_sha256: "length (PBKDF2 hmac_sha256 32 p s c 32) = 32"
  by (simp add: PBKDF2_one_block [of hmac_sha256 32] length_hmac_sha256
      length_pbkdf2_block [of hmac_sha256 32])

lemma Th_eq:
  "Th n = Inr (PBKDF2 hmac_sha256 32 (Buffer_from_string n) (Buffer_from_string (Fl Hr_r Hr_m))
                100000 32)"
  by (simp add: Th_def pbkdf2Sync_def)

lemma Buffer_from_string_ascii:
  assumes "\<forall>b\<in>set bs. b < 128"
  shows "Buffer_from_string (map of_nat bs) = map of_nat bs"
proof -
  have 1: "map unat (map of_nat bs :: jsstring) = bs"
    using assms by (induction bs) (simp_all add: unat_of_nat_unit)
  have 2: "utf16_decode bs = bs" using assms by (induction bs) auto
  have 3: "concat (map utf8_bytes bs) = bs"
    using assms by (induction bs) (simp_all add: utf8_bytes_def)
  show ?thesis by (simp only: Buffer_from_string_def 1 2 3)
qed

lemma salt_bytes:
  "Buffer_from_string (Fl Hr_r Hr_m) =
     [55, 73, 88, 86, 115, 56, 52, 79, 71, 97, 51, 103, 57, 76, 57, 69, 86, 118, 100, 75, 73, 50,
      68, 76]"
proof -
  let ?S = "[55, 73, 88, 86, 115, 56, 52, 79, 71, 97, 51, 103, 57, 76, 57, 69, 86, 118, 100, 75,
            73, 50, 68, 76] :: nat list"
  have "Fl Hr_r Hr_m = map of_nat ?S" by (simp add: Fl_Hr js_def)
  moreover have "Buffer_from_string (map of_nat ?S) = map of_nat ?S"
    by (rule Buffer_from_string_ascii) simp
  ultimately show ?thesis by simp
qed

text \<open>
  C3.  For every \<open>userId\<close> the derived key is PBKDF2 with HMAC-SHA-256 as pseudorandom
  function, the UTF-8 bytes of \<open>userId\<close> as password, the descrambled first table as salt
  (the 24 ASCII characters \<open>7IXVs84OGa3g9L9EVvdKI2DL\<close>), 100000 iterations and an output of
  32 bytes.  The derivation never fails, and the key is a function of \<open>userId\<close> alone.
\<close>

theorem key_derivation:
  "Th uid = Inr (PBKDF2 hmac_sha256 32 (Buffer_from_string uid)
                     (Buffer_from_string (Fl Hr_r Hr_m)) 100000 32) \<and>
   Fl Hr_r Hr_m = js ''7IXVs84OGa3g9L9EVvdKI2DL'' \<and>
   length (PBKDF2 hmac_sha256 32 (Buffer_from_string uid)
             (Buffer_from_string (Fl Hr_r Hr_m)) 100000 32) = 32"
  using Th_eq [of uid] Fl_Hr length_PBKDF2_hmac_sha256 by (intro conjI)

section \<open>Properties of the cipher\<close>

subsection \<open>The inverse cipher undoes the cipher\<close>

lemma index_of_nth: "distinct xs \<Longrightarrow> i < length xs \<Longrightarrow> index_of xs (xs ! i) = i"
proof (induction xs arbitrary: i)
  case Nil
  then show ?case by simp
next
  case (Cons x xs)
  show ?case
  proof (cases i)
    case 0
    then show ?thesis by simp
  next
    case (Suc j)
    with Cons.prems have "xs ! j \<in> set xs" "x \<notin> set xs" by simp_all
    then have "x \<noteq> xs ! j" by auto
    with Suc Cons show ?thesis by simp
  qed
qed

lemma length_sbox_table: "length sbox_table = 256"
  by (simp add: sbox_table_def)

lemma distinct_sbox_table: "distinct sbox_table"
  by (simp add: sbox_table_def)

lemma sbox_table_bytes: "\<forall>v\<in>set sbox_table. v < 256"
  by (simp add: sbox_table_def)

lemma unat_byte_less: "unat (x :: byte) < 256"
  using unsigned_less [of x, where 'a = nat] by simp

lemma inv_sbox_sbox: "inv_sbox (sbox x) = x"
proof -
  have i: "unat x < length sbox_table" by (simp add: length_sbox_table unat_byte_less)
  then have "sbox_table ! unat x < 256" using sbox_table_bytes by simp
  then have "unat (of_nat (sbox_table ! unat x) :: byte) = sbox_table ! unat x"
    by (simp add: unat_of_nat)
  moreover have "index_of sbox_table (sbox_table ! unat x) = unat x"
    using i by (simp add: index_of_nth distinct_sbox_table)
  ultimately show ?thesis by (simp add: inv_sbox_def sbox_def)
qed

lemma InvSubBytes_SubBytes: "InvSubBytes (SubBytes s) = s"
  by (simp add: InvSubBytes_def SubBytes_def inv_sbox_sbox map_idI)

lemma InvShiftRows_ShiftRows: "InvShiftRows (ShiftRows s) = s"
  by (induction s rule: ShiftRows.induct) simp_all

lemma xtime_xor: "xtime (a XOR b) = xtime a XOR xtime b"
  by (simp add: xtime_def bit_xor_iff push_bit_xor ac_simps)

lemma xor_cancel_left: "(a :: byte) XOR (a XOR b) = b"
  by (simp add: xor.assoc [symmetric])

text \<open>
  The two matrices are inverse to each other already as polynomials in \<open>xtime\<close>: once
  \<open>xtime\<close> is distributed over exclusive or, every term but one occurs an even number
  of times.
\<close>

lemma inv_mix_column_mix_column:
  "inv_mix_column
     (xtime a0 XOR (xtime a1 XOR a1) XOR a2 XOR a3)
     (a0 XOR xtime a1 XOR (xtime a2 XOR a2) XOR a3)
     (a0 XOR a1 XOR xtime a2 XOR (xtime a3 XOR a3))
     ((xtime a0 XOR a0) XOR a1 XOR a2 XOR xtime a3) = [a0, a1, a2, a3]"
  by (simp add: inv_mix_column_def mul9_def mul11_def mul13_def mul14_def
      xtime_xor xor_cancel_left ac_simps)

lemma InvMixColumns_MixColumns: "InvMixColumns (MixColumns s) = s"
  by (induction s rule: MixColumns.induct)
    (simp_all add: mix_column_def inv_mix_column_mix_column)

lemma length_ShiftRows: "length (ShiftRows s) = length s"
  by (induction s rule: ShiftRows.induct) simp_all

lemma length_MixColumns: "length (MixColumns s) = length s"
  by (induction s rule: MixColumns.induct) (simp_all add: mix_column_def)

lemma length_AddRoundKey: "length k = length s \<Longrightarrow> length (AddRoundKey k s) = length s"
  by (simp add: AddRoundKey_def)

lemma map2_xor_cancel:
  "length (k :: buffer) = length s \<Longrightarrow> map2 (XOR) (map2 (XOR) s k) k = s"
proof (induction s arbitrary: k)
  case Nil
  then show ?case by simp
next
  case (Cons x xs)
  then obtain y ys where "k = y # ys" "length ys = length xs" by (cases k) auto
  with Cons.IH [of ys] show ?case by (simp add: xor.assoc)
qed

lemma AddRoundKey_AddRoundKey:
  "length k = length s \<Longrightarrow> AddRoundKey k (AddRoundKey k s) = s"
  by (simp add: AddRoundKey_def map2_xor_cancel)

lemma length_aes_round: "length k = length s \<Longrightarrow> length (aes_round k s) = length s"
  by (simp add: aes_round_def length_AddRoundKey length_MixColumns length_ShiftRows SubBytes_def)

lemma aes_inv_round_aes_round: "length k = length s \<Longrightarrow> aes_inv_round k (aes_round k s) = s"
  by (simp add: aes_inv_round_def aes_round_def AddRoundKey_AddRoundKey length_MixColumns
      length_ShiftRows SubBytes_def InvMixColumns_MixColumns InvShiftRows_ShiftRows
      InvSubBytes_SubBytes [unfolded SubBytes_def])

lemma length_aes_final_round:
  "length k = length s \<Longrightarrow> length (aes_final_round k s) = length s"
  by (simp add: aes_final_round_def length_AddRoundKey length_ShiftRows SubBytes_def)

lemma aes_inv_final_round_aes_final_round:
  "length k = length s \<Longrightarrow> aes_inv_final_round k (aes_final_round k s) = s"
  by (simp add: aes_inv_final_round_def aes_final_round_def AddRoundKey_AddRoundKey
      length_ShiftRows SubBytes_def InvShiftRows_ShiftRows InvSubBytes_SubBytes [unfolded SubBytes_def])

lemma length_fold_aes_round:
  "\<forall>k\<in>set ks. length k = length s \<Longrightarrow> length (fold aes_round ks s) = length s"
  by (induction ks arbitrary: s) (simp_all add: length_aes_round)

lemma fold_aes_inv_round:
  "\<forall>k\<in>set ks. length k = length s \<Longrightarrow> fold aes_inv_round (rev ks) (fold aes_round ks s) = s"
proof (induction ks arbitrary: s)
  case Nil
  then show ?case by simp
next
  case (Cons k ks)
  then have "fold aes_inv_round (rev ks) (fold aes_round ks (aes_round k s)) = aes_round k s"
    by (simp add: length_aes_round)
  with Cons.prems show ?case by (simp add: aes_inv_round_aes_round)
qed

text \<open>With round keys of sixteen bytes each, decrypting a block undoes encrypting it.\<close>

lemma aes_decrypt_block_encrypt_block:
  assumes ks: "ks \<noteq> []" "\<forall>k\<in>set ks. length k = 16" and b: "length b = 16"
  shows "aes_decrypt_block ks (aes_encrypt_block ks b) = b"
    and "length (aes_encrypt_block ks b) = 16"
proof -
  let ?s0 = "AddRoundKey (hd ks) b"
  let ?mid = "butlast (tl ks)"
  let ?s1 = "fold aes_round ?mid ?s0"
  from ks have hd: "length (hd ks) = 16" and la: "length (last ks) = 16" by simp_all
  have mid: "\<forall>k\<in>set ?mid. length k = 16"
  proof
    fix k assume "k \<in> set ?mid"
    then have "k \<in> set (tl ks)" by (rule in_set_butlastD)
    then have "k \<in> set ks" using ks(1) by (rule list.set_sel(2) [rotated])
    then show "length k = 16" using ks(2) by simp
  qed
  have l0: "length ?s0 = 16" using hd b by (simp add: length_AddRoundKey)
  have l1: "length ?s1 = 16" using mid l0 by (simp add: length_fold_aes_round)
  show "length (aes_encrypt_block ks b) = 16"
    using la l1 by (simp add: aes_encrypt_block_def length_aes_final_round)
  have "aes_inv_final_round (last ks) (aes_final_round (last ks) ?s1) = ?s1"
    using la l1 by (simp add: aes_inv_final_round_aes_final_round)
  moreover have "fold aes_inv_round (rev ?mid) ?s1 = ?s0"
    using mid l0 by (simp add: fold_aes_inv_round)
  moreover have "AddRoundKey (hd ks) ?s0 = b"
    using hd b by (simp add: AddRoundKey_AddRoundKey)
  ultimately show "aes_decrypt_block ks (aes_encrypt_block ks b) = b"
    by (simp add: aes_decrypt_block_def aes_encrypt_block_def)
qed

subsection \<open>Blocks and round keys\<close>

lemma length_chunks: "length (chunks k xs) = length xs div k"
  by (simp add: chunks_def)

lemma chunk_bound: "i < length xs div k \<Longrightarrow> k * i + k \<le> length xs"
proof -
  assume "i < length xs div k"
  then have "Suc i \<le> length xs div k" by simp
  then have "k * Suc i \<le> k * (length xs div k)" by (rule mult_le_mono2)
  also have "\<dots> \<le> length xs" by simp
  finally show ?thesis by simp
qed

lemma length_chunk: "c \<in> set (chunks k xs) \<Longrightarrow> length c = k"
proof -
  assume "c \<in> set (chunks k xs)"
  then obtain i where i: "i < length xs div k" and c: "c = take k (drop (k * i) xs)"
    by (auto simp: chunks_def)
  from chunk_bound [OF i] show ?thesis by (simp add: c)
qed

lemma length_concat_uniform: "\<forall>b\<in>set bs. length b = k \<Longrightarrow> length (concat bs) = k * length bs"
  by (induction bs) simp_all

lemma chunks_concat:
  assumes "\<forall>b\<in>set bs. length b = k" and "0 < k"
  shows "chunks k (concat bs) = bs"
  using assms(1)
proof (induction bs rule: rev_induct)
  case Nil
  then show ?case by (simp add: chunks_def)
next
  case (snoc b bs)
  then have ih: "chunks k (concat bs) = bs" and lb: "length b = k"
    and all: "\<forall>b\<in>set bs. length b = k" by simp_all
  have len: "length (concat bs) = k * length bs"
    using all by (rule length_concat_uniform)
  have d: "length (concat bs @ b) div k = Suc (length bs)"
    using assms(2) by (simp add: len lb)
  have "map (\<lambda>i. take k (drop (k * i) (concat bs @ b))) [0..<length bs] =
        map (\<lambda>i. take k (drop (k * i) (concat bs))) [0..<length bs]"
  proof (rule map_cong [OF refl])
    fix i assume "i \<in> set [0..<length bs]"
    then have "Suc i \<le> length bs" by simp
    then have "k * Suc i \<le> k * length bs" by (rule mult_le_mono2)
    then show "take k (drop (k * i) (concat bs @ b)) = take k (drop (k * i) (concat bs))"
      by (simp add: len)
  qed
  also have "\<dots> = bs"
    using ih assms(2) by (simp add: chunks_def len)
  finally have 1: "map (\<lambda>i. take k (drop (k * i) (concat bs @ b))) [0..<length bs] = bs" .
  have 2: "take k (drop (k * length bs) (concat bs @ b)) = b"
    by (simp add: len lb)
  have "chunks k (concat bs @ b) =
        map (\<lambda>i. take k (drop (k * i) (concat bs @ b))) ([0..<length bs] @ [length bs])"
    unfolding chunks_def d by (simp only: upt_Suc le0 if_True)
  also have "\<dots> = map (\<lambda>i. take k (drop (k * i) (concat bs @ b))) [0..<length bs] @
                   [take k (drop (k * length bs) (concat bs @ b))]"
    by (simp only: map_append list.map)
  also have "\<dots> = bs @ [b]" by (simp only: 1 2)
  finally show ?case by simp
qed

lemma length_key_expansion: "length (key_expansion n w) = length w + n"
  by (induction n arbitrary: w) (simp_all add: Let_def)

lemma round_keys_ok:
  assumes "length key = 32"
  shows "round_keys key \<noteq> []" and "\<forall>k\<in>set (round_keys key). length k = 16"
proof -
  have "length (round_keys key) = 15"
    using assms
    by (simp add: round_keys_def length_chunks length_concat_be32_bytes length_key_expansion)
  then show "round_keys key \<noteq> []" by auto
  show "\<forall>k\<in>set (round_keys key). length k = 16"
    by (auto simp: round_keys_def dest: length_chunk)
qed

subsection \<open>Chaining\<close>

lemma cbc_blocks_Nil_iff: "cbc_blocks ks p bs = [] \<longleftrightarrow> bs = []"
  by (cases bs) (simp_all add: Let_def)

lemma length_cbc_blocks: "length (cbc_blocks ks p bs) = length bs"
  by (induction bs arbitrary: p) (simp_all add: Let_def)

lemma cbc_blocks_snoc:
  "cbc_blocks ks p (bs @ [b]) =
     cbc_blocks ks p bs @
     [aes_encrypt_block ks (map2 (XOR) b (if bs = [] then p else last (cbc_blocks ks p bs)))]"
proof (induction bs arbitrary: p)
  case Nil
  then show ?case by (simp add: Let_def)
next
  case (Cons a bs)
  then show ?case by (simp add: Let_def cbc_blocks_Nil_iff)
qed

lemma cbc_blocks_lengths:
  assumes ks: "ks \<noteq> []" "\<forall>k\<in>set ks. length k = 16"
  shows "length p = 16 \<Longrightarrow> \<forall>b\<in>set bs. length b = 16 \<Longrightarrow>
         \<forall>c\<in>set (cbc_blocks ks p bs). length c = 16"
proof (induction bs arbitrary: p)
  case Nil
  then show ?case by simp
next
  case (Cons b bs)
  let ?c = "aes_encrypt_block ks (map2 (XOR) b p)"
  have "length (map2 (XOR) b p) = 16" using Cons.prems by simp
  then have c: "length ?c = 16" by (rule aes_decrypt_block_encrypt_block(2) [OF ks])
  with Cons show ?case by (simp add: Let_def)
qed

lemma cbc_unblocks_cbc_blocks:
  assumes ks: "ks \<noteq> []" "\<forall>k\<in>set ks. length k = 16"
  shows "length p = 16 \<Longrightarrow> \<forall>b\<in>set bs. length b = 16 \<Longrightarrow>
         cbc_unblocks ks p (cbc_blocks ks p bs) = bs"
proof (induction bs arbitrary: p)
  case Nil
  then show ?case by simp
next
  case (Cons b bs)
  let ?x = "map2 (XOR) b p"
  let ?c = "aes_encrypt_block ks ?x"
  have x: "length ?x = 16" using Cons.prems by simp
  have c: "length ?c = 16" by (rule aes_decrypt_block_encrypt_block(2) [OF ks x])
  have d: "aes_decrypt_block ks ?c = ?x" by (rule aes_decrypt_block_encrypt_block(1) [OF ks x])
  have "map2 (XOR) ?x p = b" using Cons.prems by (simp add: map2_xor_cancel)
  with Cons c d show ?case by (simp add: Let_def)
qed

subsection \<open>Padding\<close>

lemma length_pkcs7_pad: "length (pkcs7_pad d) = 16 * Suc (length d div 16)"
proof -
  have "length d mod 16 < 16" by simp
  moreover have "length d = 16 * (length d div 16) + length d mod 16" by simp
  ultimately have "length d + (16 - length d mod 16) = 16 * (length d div 16) + 16"
    by linarith
  then show ?thesis by (simp add: pkcs7_pad_def Let_def)
qed

lemma pkcs7_unpad_pad: "pkcs7_unpad (pkcs7_pad d) = Some d"
proof -
  define k where "k = 16 - length d mod 16"
  have k: "0 < k" "k \<le> 16" by (simp_all add: k_def)
  then have u: "unat (of_nat k :: byte) = k" by (simp add: unat_of_nat)
  have p: "pkcs7_pad d = d @ replicate k (of_nat k)" by (simp add: pkcs7_pad_def k_def)
  have l: "last (d @ replicate k (of_nat k :: byte)) = of_nat k" using k(1) by simp
  show ?thesis
    unfolding p pkcs7_unpad_def l Let_def u using k by simp
qed

text \<open>
  The padded data in blocks: the complete blocks of the data, then the rest of the data
  with the padding.
\<close>

lemma chunks_pkcs7_pad:
  "chunks 16 (pkcs7_pad d) =
     chunks 16 d @
     [drop (16 * (length d div 16)) d @
      replicate (16 - length d mod 16) (of_nat (16 - length d mod 16))]"
proof -
  let ?q = "length d div 16"
  let ?pad = "replicate (16 - length d mod 16) (of_nat (16 - length d mod 16)) :: buffer"
  have p: "pkcs7_pad d = d @ ?pad" by (simp add: pkcs7_pad_def)
  have n: "length (pkcs7_pad d) div 16 = Suc ?q" by (simp add: length_pkcs7_pad)
  have q: "16 * ?q \<le> length d" by simp
  have 1: "map (\<lambda>i. take 16 (drop (16 * i) (d @ ?pad))) [0..<?q] =
           map (\<lambda>i. take 16 (drop (16 * i) d)) [0..<?q]"
  proof (rule map_cong [OF refl])
    fix i assume "i \<in> set [0..<?q]"
    then have "i < length d div 16" by simp
    from chunk_bound [OF this]
    show "take 16 (drop (16 * i) (d @ ?pad)) = take 16 (drop (16 * i) d)" by simp
  qed
  have "length (drop (16 * ?q) d @ ?pad) = 16"
  proof -
    have "length d - 16 * ?q = length d mod 16" by (simp add: minus_mult_div_eq_mod)
    then show ?thesis by simp
  qed
  then have "length (drop (16 * ?q) d @ ?pad) \<le> 16" by (rule eq_imp_le)
  then have "take 16 (drop (16 * ?q) d @ ?pad) = drop (16 * ?q) d @ ?pad" by (rule take_all)
  moreover have "drop (16 * ?q) (d @ ?pad) = drop (16 * ?q) d @ ?pad" using q by simp
  ultimately have 2: "take 16 (drop (16 * ?q) (d @ ?pad)) = drop (16 * ?q) d @ ?pad"
    by (simp only:)
  have "chunks 16 (d @ ?pad) =
        map (\<lambda>i. take 16 (drop (16 * i) (d @ ?pad))) [0..<?q] @
        [take 16 (drop (16 * ?q) (d @ ?pad))]"
    using n by (simp add: chunks_def p)
  then show ?thesis
    by (simp only: p 1 2 chunks_def)
qed

text \<open>
  \<open>update\<close> followed by \<open>final\<close> on a fresh cipher object yields the CBC encryption of the
  padded data.
\<close>

lemma cipher_final_eq:
  "cipher_final \<lparr>rks = ks, prev = p, pending = r\<rparr> =
     aes_encrypt_block ks (map2 (XOR) (r @ replicate (16 - length r) (of_nat (16 - length r))) p)"
  by (simp only: cipher_final_def Let_def cipher.simps)

lemma cipher_update_eq:
  "cipher_update \<lparr>rks = ks, prev = iv, pending = []\<rparr> d =
     (concat (cbc_blocks ks iv (chunks 16 d)),
      \<lparr>rks = ks,
       prev = (if chunks 16 d = [] then iv else last (cbc_blocks ks iv (chunks 16 d))),
       pending = drop (16 * (length d div 16)) d\<rparr>)"
  by (simp add: cipher_update_def Let_def length_chunks cbc_blocks_Nil_iff)

lemma update_final:
  "fst (cipher_update \<lparr>rks = ks, prev = iv, pending = []\<rparr> d) @
   cipher_final (snd (cipher_update \<lparr>rks = ks, prev = iv, pending = []\<rparr> d)) =
   concat (cbc_blocks ks iv (chunks 16 (pkcs7_pad d)))"
proof -
  have r: "length (drop (16 * (length d div 16)) d) = length d mod 16"
    by (simp add: minus_mult_div_eq_mod)
  show ?thesis
    unfolding cipher_update_eq fst_conv snd_conv cipher_final_eq r chunks_pkcs7_pad
      cbc_blocks_snoc
    by simp
qed

lemma length_cbc_encrypt: "length key = 32 \<Longrightarrow> length iv = 16 \<Longrightarrow>
    length (cbc_encrypt key iv d) = 16 * Suc (length d div 16)"
proof -
  assume key: "length key = 32" and iv: "length iv = 16"
  let ?bs = "chunks 16 (pkcs7_pad d)"
  have b: "\<forall>b\<in>set ?bs. length b = 16" by (auto dest: length_chunk)
  have "\<forall>c\<in>set (cbc_blocks (round_keys key) iv ?bs). length c = 16"
    by (rule cbc_blocks_lengths [OF round_keys_ok [OF key] iv b])
  then have "length (concat (cbc_blocks (round_keys key) iv ?bs)) =
             16 * length (cbc_blocks (round_keys key) iv ?bs)"
    by (rule length_concat_uniform)
  then show ?thesis
    by (simp add: cbc_encrypt_def length_cbc_blocks length_chunks length_pkcs7_pad)
qed

lemma concat_chunks: "length xs mod k = 0 \<Longrightarrow> 0 < k \<Longrightarrow> concat (chunks k xs) = xs"
proof (induction "length xs div k" arbitrary: xs)
  case 0
  then have "length xs = 0" by (metis div_eq_0_iff mod_less not_less0 neq0_conv)
  then show ?case by (simp add: chunks_def)
next
  case (Suc n)
  from Suc have l: "length xs = k * Suc n"
    by (metis mult.commute div_mult_mod_eq add.right_neutral)
  let ?a = "take (k * n) xs"
  let ?b = "drop (k * n) xs"
  have la: "length ?a = k * n" using l by simp
  have lb: "length ?b = k" using l by simp
  have "n = length ?a div k" unfolding la using Suc.prems(2) by simp
  moreover have "length ?a mod k = 0" unfolding la by simp
  ultimately have ih: "concat (chunks k ?a) = ?a"
    using Suc.prems(2) by (rule Suc.hyps(1))
  have "chunks k xs = map (\<lambda>i. take k (drop (k * i) xs)) [0..<n] @ [take k (drop (k * n) xs)]"
    using Suc.prems(2) by (simp add: chunks_def l)
  also have "map (\<lambda>i. take k (drop (k * i) xs)) [0..<n] =
             map (\<lambda>i. take k (drop (k * i) ?a)) [0..<n]"
  proof (rule map_cong [OF refl])
    fix i assume "i \<in> set [0..<n]"
    then have "Suc i \<le> n" by simp
    then have "k * Suc i \<le> k * n" by (rule mult_le_mono2)
    then have "k * i + k \<le> k * n" by simp
    then show "take k (drop (k * i) xs) = take k (drop (k * i) ?a)"
      by (simp add: drop_take min_def)
  qed
  also have "\<dots> = chunks k ?a"
  proof -
    have "k * n div k = n" using Suc.prems(2) by simp
    then show ?thesis by (simp only: chunks_def la)
  qed
  finally have "concat (chunks k xs) = concat (chunks k ?a) @ take k ?b" by simp
  then show ?case using ih lb by simp
qed

text \<open>CBC decryption with unpadding undoes CBC encryption with padding.\<close>

lemma cbc_decrypt_cbc_encrypt:
  assumes key: "length key = 32" and iv: "length iv = 16"
  shows "cbc_decrypt key iv (cbc_encrypt key iv d) = Some d"
proof -
  let ?ks = "round_keys key"
  let ?bs = "chunks 16 (pkcs7_pad d)"
  let ?cs = "cbc_blocks ?ks iv ?bs"
  note ks = round_keys_ok [OF key]
  have b: "\<forall>b\<in>set ?bs. length b = 16" by (auto dest: length_chunk)
  have c: "\<forall>c\<in>set ?cs. length c = 16" by (rule cbc_blocks_lengths [OF ks iv b])
  have 1: "chunks 16 (concat ?cs) = ?cs" by (rule chunks_concat [OF c]) simp
  have 2: "cbc_unblocks ?ks iv ?cs = ?bs" by (rule cbc_unblocks_cbc_blocks [OF ks iv b])
  have 3: "concat ?bs = pkcs7_pad d"
    by (rule concat_chunks) (simp_all add: length_pkcs7_pad)
  have l: "length (cbc_encrypt key iv d) = 16 * Suc (length d div 16)"
    by (rule length_cbc_encrypt [OF key iv])
  then have 4: "cbc_encrypt key iv d \<noteq> []" "length (cbc_encrypt key iv d) mod 16 = 0"
    by auto
  have "cbc_decrypt key iv (cbc_encrypt key iv d) =
        pkcs7_unpad (concat (cbc_unblocks ?ks iv (chunks 16 (cbc_encrypt key iv d))))"
    using key iv 4 by (simp add: cbc_decrypt_def)
  also have "chunks 16 (cbc_encrypt key iv d) = ?cs"
    unfolding cbc_encrypt_def by (rule 1)
  finally show ?thesis by (simp add: 2 3 pkcs7_unpad_pad)
qed

section \<open>Properties of the token\<close>

subsection \<open>Hexadecimal text\<close>

lemma length_toString_hex: "length (toString_hex b) = 2 * length b"
  by (induction b) (simp_all add: toString_hex_def)

lemma toString_hex_Cons:
  "toString_hex (x # b) = hex_digit (unat x div 16) # hex_digit (unat x mod 16) # toString_hex b"
  by (simp add: toString_hex_def)

lemma toString_hex_Nil: "toString_hex [] = []"
  by (simp add: toString_hex_def)

lemma unat_hex_digit: "d < 16 \<Longrightarrow> unat (hex_digit d) = (if d < 10 then 48 + d else 87 + d)"
  by (simp add: hex_digit_def unat_of_nat_unit del: of_nat_add)

lemma is_lower_hex_hex_digit: "d < 16 \<Longrightarrow> is_lower_hex (hex_digit d)"
  by (auto simp: is_lower_hex_def unat_hex_digit)

lemma hex_value_hex_digit: "d < 16 \<Longrightarrow> hex_value (unat (hex_digit d)) = Some d"
  by (auto simp: hex_value_def unat_hex_digit)

lemma byte_div_16: "unat (x :: byte) div 16 < 16"
  using unat_byte_less [of x] by simp

lemma list_all_lower_hex: "list_all is_lower_hex (toString_hex b)"
  by (induction b) (simp_all add: toString_hex_Nil toString_hex_Cons is_lower_hex_hex_digit byte_div_16)

lemma colon_not_hex: "\<not> is_lower_hex 58"
  by (simp add: is_lower_hex_def)

lemma colon_notin_hex: "58 \<notin> set (toString_hex b)"
  using list_all_lower_hex [of b] colon_not_hex by (auto simp: list_all_iff)

lemma hex_decode_toString_hex: "hex_decode (toString_hex b) = Some b"
proof (induction b)
  case Nil
  then show ?case by (simp add: toString_hex_Nil)
next
  case (Cons x b)
  have "of_nat (16 * (unat x div 16) + unat x mod 16) = x" by simp
  with Cons show ?case
    by (simp add: toString_hex_Cons hex_value_hex_digit byte_div_16)
qed

text \<open>
  \<open>H7t\<close> writes its digits with \<open>toString(16)\<close> and \<open>padStart\<close>; the result is the
  hexadecimal text that \<open>toString("hex")\<close> gives for these bytes.
\<close>

lemma padStart_toString16:
  "padStart 2 (js ''0'') (Number_toString16 (unat (x :: byte))) =
     [hex_digit (unat x div 16), hex_digit (unat x mod 16)]"
proof (cases "unat x < 16")
  case True
  then have "Number_toString16 (unat x) = [hex_digit (unat x)]"
    by (simp add: Number_toString16.simps)
  with True show ?thesis by (simp add: padStart_def js_def hex_digit_def)
next
  case False
  have "unat x div 16 < 16" by (rule byte_div_16)
  then have "Number_toString16 (unat x div 16) = [hex_digit (unat x div 16)]"
    by (simp add: Number_toString16.simps)
  with False have "Number_toString16 (unat x) =
      [hex_digit (unat x div 16), hex_digit (unat x mod 16)]"
    by (simp add: Number_toString16.simps [of "unat x"])
  then show ?thesis by (simp add: padStart_def)
qed

lemma H7t_eq: "H7t rnd t = toString_hex (randomBytes rnd t)"
  by (simp add: H7t_def getRandomValues_def randomBytes_def toString_hex_def padStart_toString16)

lemma length_randomBytes: "length (randomBytes rnd k) = k"
  by (simp add: randomBytes_def)

subsection \<open>Splitting at colons\<close>

lemma js_colon: "js '':'' = [58]"
  by (simp add: js_def)

lemma split_first_append:
  "c \<notin> set a \<Longrightarrow> split_first c (a @ c # rest) = Some (a, rest)"
  by (induction a) auto

lemma split_on_append: "c \<notin> set a \<Longrightarrow> split_on c (a @ c # rest) = a # split_on c rest"
  by (induction a) auto

lemma split_on_last: "c \<notin> set a \<Longrightarrow> split_on c a = [a]"
  by (induction a) auto

subsection \<open>What \<open>kh\<close> returns\<close>

text \<open>
  \<open>kh\<close> never fails: the key has 32 bytes and the initialisation vector 16.  It returns
  the vector and the CBC encryption of the serialised payload, both in hexadecimal.
\<close>

lemma kh_eq:
  "kh rnd n =
     Inr (toString_hex (randomBytes rnd 16) @ js '':'' @
          toString_hex
            (cbc_encrypt
               (PBKDF2 hmac_sha256 32 (Buffer_from_string (userId n))
                  (Buffer_from_string (Fl Hr_r Hr_m)) 100000 32)
               (randomBytes rnd 16)
               (Buffer_from_string (JSON_stringify (with_apiKey n (Fl jr_r jr_m))))))"
  by (simp only: kh_def Th_eq sum.case Let_def Sh_def createCipheriv_def
      length_PBKDF2_hmac_sha256 length_randomBytes simp_thms if_False
      case_prod_beta update_final cbc_encrypt_def)

subsection \<open>The serialised payload\<close>

lemma json_quote_units_ascii:
  "\<forall>u\<in>set us. 32 \<le> u \<and> u < 128 \<and> u \<noteq> 34 \<and> u \<noteq> 92 \<Longrightarrow>
   json_quote_units us = map of_nat us"
  by (induction us) (simp_all add: json_escape_def)

lemma QuoteJSONString_key:
  \<open>QuoteJSONString (js ''userId'') = js ''"userId"''\<close>
  \<open>QuoteJSONString (js ''clientUUID'') = js ''"clientUUID"''\<close>
  \<open>QuoteJSONString (js ''apiKey'') = js ''"apiKey"''\<close>
  by (simp_all add: QuoteJSONString_def js_def json_escape_def)

lemma QuoteJSONString_credential:
  \<open>QuoteJSONString (Fl jr_r jr_m) =
     js ''"6ce819f5dcc039febae2420016f148be28ef78389fc76790fb0671ab3c8925db"''\<close>
  by (simp add: Fl_jr QuoteJSONString_def js_def json_escape_def)

lemma js_append: "js (a @ b) = js a @ js b"
  by (simp add: js_def)

lemma JSON_stringify_with_apiKey:
  "JSON_stringify (with_apiKey n k) = wire_text (userId n) (clientUUID n) k"
  by (simp only: JSON_stringify_def with_apiKey_def wire_text_def list.map prod.case join.simps
      QuoteJSONString_key)
    (simp add: js_def)

subsection \<open>Decrypting a token\<close>

lemma decrypt_token:
  assumes "length key = 32" and "length iv = 16" and "Th uid = Inr key"
  shows "decrypt (toString_hex iv @ js '':'' @ toString_hex (cbc_encrypt key iv d)) uid = Some d"
proof -
  have "split_first 58 (toString_hex iv @ 58 # toString_hex (cbc_encrypt key iv d)) =
        Some (toString_hex iv, toString_hex (cbc_encrypt key iv d))"
    by (rule split_first_append) (rule colon_notin_hex)
  then show ?thesis
    using assms
    by (simp add: decrypt_def js_colon hex_decode_toString_hex cbc_decrypt_cbc_encrypt)
qed

lemma decrypt_kh:
  "\<exists>token. kh rnd n = Inr token \<and>
     decrypt token (userId n) =
       Some (Buffer_from_string (wire_text (userId n) (clientUUID n) (Fl jr_r jr_m)))"
proof -
  let ?key = "PBKDF2 hmac_sha256 32 (Buffer_from_string (userId n))
                (Buffer_from_string (Fl Hr_r Hr_m)) 100000 32"
  let ?iv = "randomBytes rnd 16"
  let ?d = "Buffer_from_string (JSON_stringify (with_apiKey n (Fl jr_r jr_m)))"
  have "decrypt (toString_hex ?iv @ js '':'' @ toString_hex (cbc_encrypt ?key ?iv ?d)) (userId n)
        = Some ?d"
    by (rule decrypt_token) (simp_all add: length_PBKDF2_hmac_sha256 length_randomBytes Th_eq)
  then show ?thesis
    by (simp only: kh_eq JSON_stringify_with_apiKey) blast
qed

text \<open>
  C10.  For every payload, the text that \<open>kh\<close> encrypts is the compact JSON
  \<open>{"userId":\<dots>,"clientUUID":\<dots>,"apiKey":\<dots>}\<close>: the three keys in this order, no white
  space, each value as a JSON string literal, and \<open>apiKey\<close> the secret descrambled from
  the second table, which is the same 64 characters on every call.  The token is the
  initialisation vector and the CBC encryption of the UTF-8 bytes of this text.
\<close>

theorem plaintext_wire_shape:
  \<open>JSON_stringify (with_apiKey n (Fl jr_r jr_m)) =
     wire_text (userId n) (clientUUID n) (Fl jr_r jr_m) \<and>
   QuoteJSONString (Fl jr_r jr_m) =
     js ''"6ce819f5dcc039febae2420016f148be28ef78389fc76790fb0671ab3c8925db"'' \<and>
   kh rnd n =
     Inr (toString_hex (randomBytes rnd 16) @ js '':'' @
          toString_hex
            (cbc_encrypt
               (PBKDF2 hmac_sha256 32 (Buffer_from_string (userId n))
                  (Buffer_from_string (Fl Hr_r Hr_m)) 100000 32)
               (randomBytes rnd 16)
               (Buffer_from_string (wire_text (userId n) (clientUUID n) (Fl jr_r jr_m)))))\<close>
  using JSON_stringify_with_apiKey [of n "Fl jr_r jr_m"] QuoteJSONString_credential
    kh_eq [of rnd n]
  by (simp only: simp_thms)

subsection \<open>The identifier\<close>

lemma get_identifier_eq:
  "get_identifier rnd_iv rnd_nonce uid cid =
     Inr (toString_hex (randomBytes rnd_nonce 12) @ js '':'' @
          toString_hex (randomBytes rnd_iv 16) @ js '':'' @
          toString_hex
            (cbc_encrypt
               (PBKDF2 hmac_sha256 32 (Buffer_from_string uid)
                  (Buffer_from_string (Fl Hr_r Hr_m)) 100000 32)
               (randomBytes rnd_iv 16)
               (Buffer_from_string (wire_text uid cid (Fl jr_r jr_m)))))"
  by (simp only: get_identifier_def kh_eq sum.case H7t_eq JSON_stringify_with_apiKey
      payload.simps)

text \<open>
  C2.  For every \<open>userId\<close> and \<open>clientUUID\<close> (and all random bytes), \<open>get_identifier\<close>
  returns three fields separated by two colons: 24 lowercase hexadecimal digits (the
  12-byte nonce), 32 lowercase hexadecimal digits (the 16-byte initialisation vector),
  and a non-empty, even number of lowercase hexadecimal digits (the ciphertext).
\<close>

theorem identifier_format:
  "\<exists>f1 f2 f3.
     get_identifier rnd_iv rnd_nonce uid cid = Inr (f1 @ js '':'' @ f2 @ js '':'' @ f3) \<and>
     split_on 58 (f1 @ js '':'' @ f2 @ js '':'' @ f3) = [f1, f2, f3] \<and>
     f1 = toString_hex (randomBytes rnd_nonce 12) \<and> length f1 = 24 \<and>
     list_all is_lower_hex f1 \<and>
     f2 = toString_hex (randomBytes rnd_iv 16) \<and> length f2 = 32 \<and>
     list_all is_lower_hex f2 \<and>
     f3 \<noteq> [] \<and> even (length f3) \<and> list_all is_lower_hex f3"
proof -
  let ?key = "PBKDF2 hmac_sha256 32 (Buffer_from_string uid)
                (Buffer_from_string (Fl Hr_r Hr_m)) 100000 32"
  let ?ct = "cbc_encrypt ?key (randomBytes rnd_iv 16)
               (Buffer_from_string (wire_text uid cid (Fl jr_r jr_m)))"
  let ?f1 = "toString_hex (randomBytes rnd_nonce 12)"
  let ?f2 = "toString_hex (randomBytes rnd_iv 16)"
  let ?f3 = "toString_hex ?ct"
  have ct: "length ?ct = 16 * Suc (length (Buffer_from_string (wire_text uid cid (Fl jr_r jr_m)))
              div 16)"
    by (rule length_cbc_encrypt) (simp_all add: length_PBKDF2_hmac_sha256 length_randomBytes)
  have 1: "get_identifier rnd_iv rnd_nonce uid cid = Inr (?f1 @ js '':'' @ ?f2 @ js '':'' @ ?f3)"
    by (rule get_identifier_eq)
  have "split_on 58 (?f1 @ 58 # ?f2 @ 58 # ?f3) = ?f1 # split_on 58 (?f2 @ 58 # ?f3)"
    by (rule split_on_append) (rule colon_notin_hex)
  also have "split_on 58 (?f2 @ 58 # ?f3) = ?f2 # split_on 58 ?f3"
    by (rule split_on_append) (rule colon_notin_hex)
  also have "split_on 58 ?f3 = [?f3]"
    by (rule split_on_last) (rule colon_notin_hex)
  finally have 2: "split_on 58 (?f1 @ js '':'' @ ?f2 @ js '':'' @ ?f3) = [?f1, ?f2, ?f3]"
    by (simp add: js_colon)
  have 3: "length ?f1 = 24" "length ?f2 = 32"
    by (simp_all add: length_toString_hex length_randomBytes)
  have 4: "?f3 \<noteq> []" "even (length ?f3)"
    using ct by (auto simp: length_toString_hex simp flip: length_0_conv)
  from 1 2 3 4 list_all_lower_hex [of "randomBytes rnd_nonce 12"]
    list_all_lower_hex [of "randomBytes rnd_iv 16"] list_all_lower_hex [of ?ct]
  show ?thesis by blast
qed

text \<open>
  C8.  The part of the identifier after the first colon is the token that \<open>kh\<close> returns,
  which does not depend on the nonce: two identifiers issued for the same \<open>userId\<close> and
  \<open>clientUUID\<close> with the same initialisation vector differ in the nonce prefix only,
  whatever the nonce bytes are.
\<close>

theorem nonce_independence:
  "\<exists>token.
     kh rnd_iv \<lparr>userId = uid, clientUUID = cid\<rparr> = Inr token \<and>
     get_identifier rnd_iv rnd1 uid cid =
       Inr (toString_hex (randomBytes rnd1 12) @ js '':'' @ token) \<and>
     get_identifier rnd_iv rnd2 uid cid =
       Inr (toString_hex (randomBytes rnd2 12) @ js '':'' @ token) \<and>
     split_first 58 (toString_hex (randomBytes rnd1 12) @ js '':'' @ token) =
       Some (toString_hex (randomBytes rnd1 12), token) \<and>
     split_first 58 (toString_hex (randomBytes rnd2 12) @ js '':'' @ token) =
       Some (toString_hex (randomBytes rnd2 12), token)"
proof -
  obtain token where t: "kh rnd_iv \<lparr>userId = uid, clientUUID = cid\<rparr> = Inr token"
    using kh_eq [of rnd_iv "\<lparr>userId = uid, clientUUID = cid\<rparr>"] by blast
  have g: "get_identifier rnd_iv r uid cid = Inr (toString_hex (randomBytes r 12) @ js '':'' @ token)"
    for r
    by (simp add: get_identifier_def t H7t_eq)
  have s: "split_first 58 (toString_hex (randomBytes r 12) @ js '':'' @ token) =
           Some (toString_hex (randomBytes r 12), token)" for r
    unfolding js_colon append_Cons append_Nil
    by (rule split_first_append) (rule colon_notin_hex)
  from t g s show ?thesis by blast
qed

text \<open>
  C1.  For every payload and every initialisation vector, decrypting the token of \<open>kh\<close>
  (split at the first colon, both halves decoded from hexadecimal, the key derived from
  the same \<open>userId\<close>, AES-256-CBC decryption with PKCS#7 unpadding) succeeds and gives
  the UTF-8 bytes of the JSON text whose \<open>userId\<close> and \<open>clientUUID\<close> are the original
  fields and whose \<open>apiKey\<close> is the secret descrambled from the second table.
\<close>

theorem encrypt_decrypt_round_trip:
  "\<exists>token. kh rnd n = Inr token \<and>
     decrypt token (userId n) =
       Some (Buffer_from_string (wire_text (userId n) (clientUUID n) (Fl jr_r jr_m)))"
  by (rule decrypt_kh)

text \<open>
  C7.  Two calls of \<open>kh\<close> with the same payload whose initialisation vectors differ
  return different tokens, and both tokens decrypt, under the key derived from the same
  \<open>userId\<close>, to the same plaintext.
\<close>

theorem ciphertext_freshness:
  assumes "randomBytes rnd1 16 \<noteq> randomBytes rnd2 16"
  shows "\<exists>t1 t2. kh rnd1 n = Inr t1 \<and> kh rnd2 n = Inr t2 \<and> t1 \<noteq> t2 \<and>
           decrypt t1 (userId n) = decrypt t2 (userId n) \<and>
           decrypt t1 (userId n) =
             Some (Buffer_from_string (wire_text (userId n) (clientUUID n) (Fl jr_r jr_m)))"
proof -
  obtain t1 where t1: "kh rnd1 n = Inr t1"
    "decrypt t1 (userId n) =
       Some (Buffer_from_string (wire_text (userId n) (clientUUID n) (Fl jr_r jr_m)))"
    using decrypt_kh [of rnd1 n] by blast
  obtain t2 where t2: "kh rnd2 n = Inr t2"
    "decrypt t2 (userId n) =
       Some (Buffer_from_string (wire_text (userId n) (clientUUID n) (Fl jr_r jr_m)))"
    using decrypt_kh [of rnd2 n] by blast
  have "t1 \<noteq> t2"
  proof
    assume e: "t1 = t2"
    have iv: "\<exists>c. kh r n = Inr (toString_hex (randomBytes r 16) @ 58 # c)" for r
      using kh_eq [of r n] by (simp add: js_colon)
    from iv [of rnd1] t1(1) obtain c1 where c1: "t1 = toString_hex (randomBytes rnd1 16) @ 58 # c1"
      by auto
    from iv [of rnd2] t2(1) obtain c2 where c2: "t2 = toString_hex (randomBytes rnd2 16) @ 58 # c2"
      by auto
    have "split_first 58 t1 = Some (toString_hex (randomBytes rnd1 16), c1)"
      unfolding c1 by (rule split_first_append) (rule colon_notin_hex)
    moreover have "split_first 58 t2 = Some (toString_hex (randomBytes rnd2 16), c2)"
      unfolding c2 by (rule split_first_append) (rule colon_notin_hex)
    ultimately have "toString_hex (randomBytes rnd1 16) = toString_hex (randomBytes rnd2 16)"
      using e by simp
    then have "hex_decode (toString_hex (randomBytes rnd1 16)) =
               hex_decode (toString_hex (randomBytes rnd2 16))" by simp
    then have "randomBytes rnd1 16 = randomBytes rnd2 16"
      by (simp add: hex_decode_toString_hex)
    with assms show False by contradiction
  qed
  with t1 t2 show ?thesis by auto
qed

theorem ciphertext_freshness_witness:
  "randomBytes (\<lambda>i. 0) 16 \<noteq> randomBytes (\<lambda>i. 1) 16 \<and>
   (\<exists>t1 t2. kh (\<lambda>i. 0) \<lparr>userId = js ''u1'', clientUUID = js ''c1''\<rparr> = Inr t1 \<and>
      kh (\<lambda>i. 1) \<lparr>userId = js ''u1'', clientUUID = js ''c1''\<rparr> = Inr t2 \<and> t1 \<noteq> t2 \<and>
      decrypt t1 (js ''u1'') = decrypt t2 (js ''u1'') \<and>
      decrypt t1 (js ''u1'') =
        Some (Buffer_from_string (wire_text (js ''u1'') (js ''c1'') (Fl jr_r jr_m))))"
proof -
  have h: "randomBytes (\<lambda>i. 0) 16 \<noteq> randomBytes (\<lambda>i. 1) 16"
    by (simp add: randomBytes_def upt_rec)
  from ciphertext_freshness [OF h, of "\<lparr>userId = js ''u1'', clientUUID = js ''c1''\<rparr>"]
  have "\<exists>t1 t2. kh (\<lambda>i. 0) \<lparr>userId = js ''u1'', clientUUID = js ''c1''\<rparr> = Inr t1 \<and>
      kh (\<lambda>i. 1) \<lparr>userId = js ''u1'', clientUUID = js ''c1''\<rparr> = Inr t2 \<and> t1 \<noteq> t2 \<and>
      decrypt t1 (js ''u1'') = decrypt t2 (js ''u1'') \<and>
      decrypt t1 (js ''u1'') =
        Some (Buffer_from_string (wire_text (js ''u1'') (js ''c1'') (Fl jr_r jr_m)))"
    by (simp only: payload.simps)
  with h show ?thesis by (rule conjI)
qed

section \<open>Properties of the text encodings\<close>

subsection \<open>Base64 decoding undoes base64 encoding\<close>

lemma unbase64_b64_char: "v < 64 \<Longrightarrow> unbase64 (b64_char v) = Some v"
  by (auto simp: unbase64_def b64_char_def)

lemma unbase64_pad: "unbase64 61 = None"
  by (simp add: unbase64_def)

lemma b64_char_ascii: "v < 64 \<Longrightarrow> b64_char v < 128"
  by (auto simp: b64_char_def)

lemma div_lt: "(b::nat) < 256 \<Longrightarrow> b div 16 < 16" "(b::nat) < 256 \<Longrightarrow> b div 4 < 64"
  "(b::nat) < 256 \<Longrightarrow> b div 64 < 4"
  by (simp_all add: less_mult_imp_div_less)

lemma sextet_bounds:
  "(a::nat) < 256 \<Longrightarrow> b < 256 \<Longrightarrow> (a mod 4) * 16 + b div 16 < 64"
  "(b::nat) < 256 \<Longrightarrow> c < 256 \<Longrightarrow> (b mod 16) * 4 + c div 64 < 64"
  "(b mod 16) * 4 < (64::nat)" "(a mod 4) * 16 < (64::nat)"
proof -
  have 1: "a mod 4 \<le> 3" "b mod 16 \<le> 15" by simp_all
  show "a < 256 \<Longrightarrow> b < 256 \<Longrightarrow> (a mod 4) * 16 + b div 16 < 64"
    using 1(1) div_lt(1) [of b] by linarith
  show "b < 256 \<Longrightarrow> c < 256 \<Longrightarrow> (b mod 16) * 4 + c div 64 < 64"
    using 1(2) div_lt(3) [of c] by linarith
  show "(b mod 16) * 4 < 64" using 1(2) by linarith
  show "(a mod 4) * 16 < 64" using 1(1) by linarith
qed

lemma hi_lo_16: "y < 16 \<Longrightarrow> ((x::nat) * 16 + y) div 16 = x \<and> (x * 16 + y) mod 16 = y"
  by simp

lemma hi_lo_4: "y < 4 \<Longrightarrow> ((x::nat) * 4 + y) div 4 = x \<and> (x * 4 + y) mod 4 = y"
  by simp

lemma regroup1:
  "(b::nat) < 256 \<Longrightarrow> a div 4 * 4 + ((a mod 4) * 16 + b div 16) div 16 = a"
  using hi_lo_16 [of "b div 16" "a mod 4"] by (simp add: div_lt)

lemma regroup2:
  "(b::nat) < 256 \<Longrightarrow> c < 256 \<Longrightarrow>
     ((a mod 4) * 16 + b div 16) mod 16 * 16 + ((b mod 16) * 4 + c div 64) div 4 = b"
  using hi_lo_16 [of "b div 16" "a mod 4"] hi_lo_4 [of "c div 64" "b mod 16"]
  by (simp add: div_lt)

lemma regroup3:
  "(c::nat) < 256 \<Longrightarrow> ((b mod 16) * 4 + c div 64) mod 4 * 64 + c mod 64 = c"
  using hi_lo_4 [of "c div 64" "b mod 16"] by (simp add: div_lt)

lemma regroup2':
  "(b::nat) < 256 \<Longrightarrow> ((a mod 4) * 16 + b div 16) mod 16 * 16 + ((b mod 16) * 4) div 4 = b"
  using hi_lo_16 [of "b div 16" "a mod 4"] by (simp add: div_lt)

lemma regroup1': "a div 4 * 4 + ((a mod 4) * 16) div 16 = (a::nat)"
  by simp

lemma b64_encode_ascii: "\<forall>b\<in>set bs. b < 256 \<Longrightarrow> \<forall>c\<in>set (b64_encode bs). c < 128"
proof (induction bs rule: b64_encode.induct)
  case (1 a b c rest)
  then have r: "a < 256" "b < 256" "c < 256" by simp_all
  have "a div 4 < 64" "(a mod 4) * 16 + b div 16 < 64" "(b mod 16) * 4 + c div 64 < 64"
    "c mod 64 < 64"
    using r by (simp_all add: div_lt sextet_bounds)
  with 1 show ?case by (simp add: b64_char_ascii)
next
  case (2 a b)
  then have r: "a < 256" "b < 256" by simp_all
  have "a div 4 < 64" "(a mod 4) * 16 + b div 16 < 64" "(b mod 16) * 4 < 64"
    using r by (simp_all add: div_lt sextet_bounds)
  then show ?case by (simp add: b64_char_ascii)
next
  case (3 a)
  then have r: "a < 256" by simp
  have "a div 4 < 64" "(a mod 4) * 16 < 64" using r by (simp_all add: div_lt sextet_bounds)
  then show ?case by (simp add: b64_char_ascii)
next
  case 4
  then show ?case by simp
qed

lemma b64_sextets_Cons: "v < 64 \<Longrightarrow> b64_sextets (b64_char v # cs) = v # b64_sextets cs"
  by (simp add: unbase64_b64_char)

lemma b64_sextets_pad: "b64_sextets (61 # cs) = []"
  by (simp add: unbase64_pad)

lemma b64_decode_encode:
  "\<forall>b\<in>set bs. b < 256 \<Longrightarrow> b64_bytes (b64_sextets (b64_encode bs)) = bs"
proof (induction bs rule: b64_encode.induct)
  case (1 a b c rest)
  then have r: "a < 256" "b < 256" "c < 256"
    and ih: "b64_bytes (b64_sextets (b64_encode rest)) = rest"
    by simp_all
  have v: "a div 4 < 64" "(a mod 4) * 16 + b div 16 < 64" "(b mod 16) * 4 + c div 64 < 64"
    "c mod 64 < 64"
    using r by (simp_all add: div_lt sextet_bounds)
  show ?case
    by (simp only: b64_encode.simps b64_sextets_Cons v b64_bytes.simps ih
        regroup1 [OF r(2)] regroup2 [OF r(2) r(3)] regroup3 [OF r(3)])
next
  case (2 a b)
  then have r: "a < 256" "b < 256" by simp_all
  have v: "a div 4 < 64" "(a mod 4) * 16 + b div 16 < 64" "(b mod 16) * 4 < 64"
    using r by (simp_all add: div_lt sextet_bounds)
  show ?case
    by (simp only: b64_encode.simps b64_sextets_Cons b64_sextets_pad v b64_bytes.simps
        regroup1 [OF r(2)] regroup2' [OF r(2)])
next
  case (3 a)
  have v: "a div 4 < 64" "(a mod 4) * 16 < 64" using 3 by (simp_all add: div_lt sextet_bounds)
  show ?case
    by (simp only: b64_encode.simps b64_sextets_Cons b64_sextets_pad v b64_bytes.simps regroup1')
next
  case 4
  then show ?case by simp
qed

subsection \<open>UTF-8 decoding undoes UTF-8 encoding\<close>

lemma dec1: "b0 < 128 \<Longrightarrow> utf8_decode (b0 # rest) = b0 # utf8_decode rest"
  by simp

lemma dec2:
  "194 \<le> b0 \<Longrightarrow> b0 \<le> 223 \<Longrightarrow> is_cont b1 \<Longrightarrow>
   utf8_decode (b0 # b1 # rest) = ((b0 - 192) * 64 + (b1 - 128)) # utf8_decode rest"
  by simp

lemma dec3:
  "224 \<le> b0 \<Longrightarrow> b0 \<le> 239 \<Longrightarrow> second_lo b0 \<le> b1 \<Longrightarrow> b1 \<le> second_hi b0 \<Longrightarrow> is_cont b2 \<Longrightarrow>
   utf8_decode (b0 # b1 # b2 # rest) =
     ((b0 - 224) * 4096 + (b1 - 128) * 64 + (b2 - 128)) # utf8_decode rest"
  by simp

lemma dec4:
  "240 \<le> b0 \<Longrightarrow> b0 \<le> 244 \<Longrightarrow> second_lo b0 \<le> b1 \<Longrightarrow> b1 \<le> second_hi b0 \<Longrightarrow> is_cont b2 \<Longrightarrow>
   is_cont b3 \<Longrightarrow>
   utf8_decode (b0 # b1 # b2 # b3 # rest) =
     ((b0 - 240) * 262144 + (b1 - 128) * 4096 + (b2 - 128) * 64 + (b3 - 128)) # utf8_decode rest"
  by simp

lemma is_cont_128: "x < 64 \<Longrightarrow> is_cont (128 + x)"
  by (simp add: is_cont_def)

lemma utf8_decode_1: "cp < 128 \<Longrightarrow> utf8_decode (utf8_bytes cp @ rest) = cp # utf8_decode rest"
  by (simp add: utf8_bytes_def)

lemma utf8_decode_2:
  assumes "128 \<le> cp" "cp < 2048"
  shows "utf8_decode (utf8_bytes cp @ rest) = cp # utf8_decode rest"
proof -
  define h where "h = cp div 64"
  define l where "l = cp mod 64"
  have h: "2 \<le> h" "h < 32"
    using assms by (simp_all add: h_def less_mult_imp_div_less le_div_geq)
  have l: "l < 64" by (simp add: l_def)
  have v: "h * 64 + l = cp" by (simp add: h_def l_def)
  have b: "utf8_bytes cp @ rest = (192 + h) # (128 + l) # rest"
    using assms by (simp add: utf8_bytes_def h_def l_def)
  have "utf8_decode ((192 + h) # (128 + l) # rest) =
        ((192 + h - 192) * 64 + (128 + l - 128)) # utf8_decode rest"
    using h l by (intro dec2 is_cont_128) simp_all
  then show ?thesis unfolding b using v by simp
qed

lemma utf8_decode_3:
  assumes "2048 \<le> cp" "cp < 65536" "\<not> (55296 \<le> cp \<and> cp \<le> 57343)"
  shows "utf8_decode (utf8_bytes cp @ rest) = cp # utf8_decode rest"
proof -
  define h where "h = cp div 4096"
  define m where "m = cp div 64 mod 64"
  define l where "l = cp mod 64"
  have h: "h < 16" using assms(2) by (simp add: h_def less_mult_imp_div_less)
  have m: "m < 64" and l: "l < 64" by (simp_all add: m_def l_def)
  have "cp div 64 = (cp div 64 div 64) * 64 + cp div 64 mod 64" by simp
  moreover have "cp div 64 div 64 = cp div 4096" by (simp add: div_mult2_eq [symmetric])
  moreover have "cp = cp div 64 * 64 + cp mod 64" by simp
  ultimately have v: "h * 4096 + m * 64 + l = cp"
    unfolding h_def m_def l_def by linarith
  have lo: "h = 0 \<Longrightarrow> 32 \<le> m" using assms(1) v l by linarith
  have hi: "h = 13 \<Longrightarrow> m \<le> 31" using assms(3) v l m by linarith
  have b: "utf8_bytes cp @ rest = (224 + h) # (128 + m) # (128 + l) # rest"
    using assms by (simp add: utf8_bytes_def h_def m_def l_def)
  have s: "second_lo (224 + h) \<le> 128 + m" "128 + m \<le> second_hi (224 + h)"
    using h m lo hi by (simp_all add: second_lo_def second_hi_def)
  have "utf8_decode ((224 + h) # (128 + m) # (128 + l) # rest) =
        ((224 + h - 224) * 4096 + (128 + m - 128) * 64 + (128 + l - 128)) # utf8_decode rest"
    using h l s by (intro dec3 is_cont_128) simp_all
  then show ?thesis unfolding b using v by simp
qed

lemma utf8_decode_4:
  assumes "65536 \<le> cp" "cp < 1114112"
  shows "utf8_decode (utf8_bytes cp @ rest) = cp # utf8_decode rest"
proof -
  define h where "h = cp div 262144"
  define m where "m = cp div 4096 mod 64"
  define k where "k = cp div 64 mod 64"
  define l where "l = cp mod 64"
  have h: "h \<le> 4"
  proof -
    have "cp < 5 * 262144" using assms(2) by simp
    then have "cp div 262144 < 5" by (rule less_mult_imp_div_less)
    then show ?thesis by (simp add: h_def)
  qed
  have m: "m < 64" and k: "k < 64" and l: "l < 64" by (simp_all add: m_def k_def l_def)
  have "cp div 4096 = (cp div 4096 div 64) * 64 + cp div 4096 mod 64" by simp
  moreover have "cp div 4096 div 64 = cp div 262144" by (simp add: div_mult2_eq [symmetric])
  moreover have "cp div 64 = (cp div 64 div 64) * 64 + cp div 64 mod 64" by simp
  moreover have "cp div 64 div 64 = cp div 4096" by (simp add: div_mult2_eq [symmetric])
  moreover have "cp = cp div 64 * 64 + cp mod 64" by simp
  ultimately have v: "h * 262144 + m * 4096 + k * 64 + l = cp"
    unfolding h_def m_def k_def l_def by linarith
  have lo: "h = 0 \<Longrightarrow> 16 \<le> m" using assms(1) v k l by linarith
  have hi: "h = 4 \<Longrightarrow> m \<le> 15" using assms(2) v by linarith
  have b: "utf8_bytes cp @ rest = (240 + h) # (128 + m) # (128 + k) # (128 + l) # rest"
    using assms by (simp add: utf8_bytes_def h_def m_def k_def l_def)
  have s: "second_lo (240 + h) \<le> 128 + m" "128 + m \<le> second_hi (240 + h)"
    using h m lo hi by (simp_all add: second_lo_def second_hi_def)
  have "utf8_decode ((240 + h) # (128 + m) # (128 + k) # (128 + l) # rest) =
        ((240 + h - 240) * 262144 + (128 + m - 128) * 4096 + (128 + k - 128) * 64
           + (128 + l - 128)) # utf8_decode rest"
    using h k l s by (intro dec4 is_cont_128) simp_all
  then show ?thesis unfolding b using v by simp
qed

lemma utf8_decode_utf8_bytes:
  "scalar cp \<Longrightarrow> utf8_decode (utf8_bytes cp @ rest) = cp # utf8_decode rest"
  unfolding scalar_def
  using utf8_decode_1 [of cp rest] utf8_decode_2 [of cp rest] utf8_decode_3 [of cp rest]
    utf8_decode_4 [of cp rest]
  by (cases "cp < 128"; cases "cp < 2048"; cases "cp < 65536") simp_all

lemma utf8_bytes_byte: "cp < 1114112 \<Longrightarrow> \<forall>b\<in>set (utf8_bytes cp). b < 256"
proof -
  assume c: "cp < 1114112"
  have 1: "cp < 2048 \<Longrightarrow> cp div 64 < 32" by (simp add: less_mult_imp_div_less)
  have 2: "cp < 65536 \<Longrightarrow> cp div 4096 < 16" by (simp add: less_mult_imp_div_less)
  have "cp < 5 * 262144" using c by simp
  then have 3: "cp div 262144 < 5" by (rule less_mult_imp_div_less)
  have m: "cp mod 64 < 64" "cp div 64 mod 64 < 64" "cp div 4096 mod 64 < 64" by simp_all
  show ?thesis
    using 1 2 3 m by (auto simp: utf8_bytes_def)
qed

lemma utf8_decode_concat:
  "\<forall>cp\<in>set cps. scalar cp \<Longrightarrow> utf8_decode (concat (map utf8_bytes cps)) = cps"
  by (induction cps) (simp_all add: utf8_decode_utf8_bytes)

lemma map_unat_of_nat_bytes:
  "\<forall>b\<in>set bs. b < 256 \<Longrightarrow> map unat (map of_nat bs :: buffer) = bs"
  by (induction bs) (simp_all add: unat_of_nat_byte)

lemma map_unat_of_nat_units:
  "\<forall>u\<in>set us. u < 65536 \<Longrightarrow> map unat (map of_nat us :: jsstring) = us"
  by (induction us) (simp_all add: unat_of_nat_unit)

lemma pair_value:
  assumes "55296 \<le> u" "u \<le> 56319" "56320 \<le> v" "v \<le> 57343"
  defines "cp \<equiv> 65536 + (u - 55296) * 1024 + (v - 56320)"
  shows "scalar cp" and "utf16_units cp = [of_nat u, of_nat v]"
proof -
  have a: "u - 55296 \<le> 1023" "v - 56320 < 1024" using assms by simp_all
  then have c: "65536 \<le> cp" "cp < 1114112" by (simp_all add: cp_def)
  then show "scalar cp" by (simp add: scalar_def)
  have "(cp - 65536) div 1024 = u - 55296" "(cp - 65536) mod 1024 = v - 56320"
    using a by (simp_all add: cp_def)
  then show "utf16_units cp = [of_nat u, of_nat v]"
    using c assms(1) assms(3) by (simp add: utf16_units_def)
qed

text \<open>
  Decoding the code units of a well-formed string gives scalar values, and encoding
  these as UTF-16 gives the string back.
\<close>

lemma utf16_decode_well_formed:
  "well_formed_utf16 us \<Longrightarrow> \<forall>u\<in>set us. u < 65536 \<Longrightarrow>
   (\<forall>cp\<in>set (utf16_decode us). scalar cp) \<and>
   concat (map utf16_units (utf16_decode us)) = map of_nat us"
proof (induction us rule: utf16_decode.induct)
  case 1
  then show ?case by simp
next
  case (2 u us)
  show ?case
  proof (cases "55296 \<le> u \<and> u \<le> 56319")
    case True
    have "case us of [] \<Rightarrow> False | v # vs \<Rightarrow> 56320 \<le> v \<and> v \<le> 57343 \<and> well_formed_utf16 vs"
      using "2.prems"(1) by (simp only: well_formed_utf16.simps if_P [OF True] simp_thms)
    then obtain v vs where us: "us = v # vs" and v: "56320 \<le> v \<and> v \<le> 57343"
      and wf: "well_formed_utf16 vs"
      by (cases us) simp_all
    have ih: "(\<forall>cp\<in>set (utf16_decode vs). scalar cp) \<and>
          concat (map utf16_units (utf16_decode vs)) = map of_nat vs"
      using "2.IH"(1) [OF True us v] wf "2.prems"(2) us by simp
    have d: "utf16_decode (u # v # vs) =
             (65536 + (u - 55296) * 1024 + (v - 56320)) # utf16_decode vs"
      by (simp only: utf16_decode.simps if_P [OF True] list.case if_P [OF v])
    from pair_value [of u v] True v ih show ?thesis
      unfolding us d by simp
  next
    case False
    have "\<not> (56320 \<le> u \<and> u \<le> 57343) \<and> well_formed_utf16 us"
      using "2.prems"(1) by (simp only: well_formed_utf16.simps if_not_P [OF False] simp_thms)
    then have n: "\<not> (56320 \<le> u \<and> u \<le> 57343)" and wf: "well_formed_utf16 us" by simp_all
    have ih: "(\<forall>cp\<in>set (utf16_decode us). scalar cp) \<and>
          concat (map utf16_units (utf16_decode us)) = map of_nat us"
      using "2.IH"(4) [OF False n] wf "2.prems"(2) by simp
    have d: "utf16_decode (u # us) = u # utf16_decode us"
      by (simp only: utf16_decode.simps if_not_P [OF False] if_not_P [OF n])
    have "scalar u" using False n "2.prems"(2) by (auto simp: scalar_def)
    moreover have "utf16_units u = [of_nat u]" using "2.prems"(2) by (simp add: utf16_units_def)
    ultimately show ?thesis unfolding d using ih by simp
  qed
qed

lemma unit_less: "unat (u :: 16 word) < 65536"
  using unsigned_less [of u, where 'a = nat] by simp

text \<open>Encoding a well-formed string as UTF-8 and decoding the bytes gives it back.\<close>

lemma toString_utf8_Buffer_from_string:
  assumes "well_formed s"
  shows "toString_utf8 (Buffer_from_string s) = s"
proof -
  let ?cps = "utf16_decode (map unat s)"
  have u: "\<forall>u\<in>set (map unat s). u < 65536" by (simp add: unit_less)
  from utf16_decode_well_formed [OF assms [unfolded well_formed_def] u]
  have sc: "\<forall>cp\<in>set ?cps. scalar cp"
    and units: "concat (map utf16_units ?cps) = map of_nat (map unat s)" by simp_all
  have "\<forall>b\<in>set (concat (map utf8_bytes ?cps)). b < 256"
    using sc utf8_bytes_byte by (auto simp: scalar_def)
  then have 1: "map unat (Buffer_from_string s) = concat (map utf8_bytes ?cps)"
    unfolding Buffer_from_string_def by (rule map_unat_of_nat_bytes)
  have 2: "utf8_decode (concat (map utf8_bytes ?cps)) = ?cps"
    using sc by (rule utf8_decode_concat)
  have "map of_nat (map unat s) = s" by (simp add: map_idI)
  then show ?thesis
    by (simp only: toString_utf8_def 1 2 units)
qed

section \<open>Scrambling and descrambling\<close>

lemma length_toString_base64: "length (toString_base64 b) = length (b64_encode (map unat b))"
  by (simp add: toString_base64_def)

lemma base64_text_bytes:
  "Buffer_from_string (toString_base64 b) = map of_nat (b64_encode (map unat b))"
proof -
  have "\<forall>x\<in>set (map unat b). x < 256" by (simp add: unat_byte_less)
  then have "\<forall>c\<in>set (b64_encode (map unat b)). c < 128" by (rule b64_encode_ascii)
  then show ?thesis
    unfolding toString_base64_def by (rule Buffer_from_string_ascii)
qed

text \<open>Node's decoder gives back the bytes of every standard base64 text.\<close>

lemma Buffer_from_base64_toString_base64: "Buffer_from_base64 (toString_base64 b) = b"
proof -
  have bs: "\<forall>x\<in>set (map unat b). x < 256" by (simp add: unat_byte_less)
  then have "\<forall>c\<in>set (b64_encode (map unat b)). c < 128" by (rule b64_encode_ascii)
  then have "Buffer_from_base64 (toString_base64 b) =
             map of_nat (b64_bytes (b64_sextets (b64_encode (map unat b))))"
    unfolding toString_base64_def by (rule Buffer_from_base64_ascii)
  also have "\<dots> = map of_nat (map unat b)" by (simp only: b64_decode_encode [OF bs])
  also have "\<dots> = b" by (simp add: map_idI)
  finally show ?thesis .
qed

text \<open>The descrambler on a scrambled table, for bytes of any kind.\<close>

lemma Fl_scramble:
  assumes p: "permutation_of m (length (toString_base64 (rev secret)))"
  shows "Fl (scramble secret m) m = toString_utf8 secret"
proof -
  let ?cs = "b64_encode (map unat (rev secret))"
  let ?t = "map of_nat ?cs :: buffer"
  let ?X = "map uint ?t"
  from p have pm: "length m = length ?cs" "set m = {..<length ?cs}"
    by (simp_all add: permutation_of_def length_toString_base64)
  have ascii: "\<forall>c\<in>set ?cs. c < 128"
    by (rule b64_encode_ascii) (simp add: unat_byte_less)
  have r: "scramble secret m = map (\<lambda>s. uint (?t ! (m ! s))) [0..<length m]"
    by (simp only: scramble_def Let_def base64_text_bytes)
  have lr: "length (scramble secret m) = length ?cs" by (simp add: r pm(1))
  have p': "permutation_of m (length (scramble secret m))"
    using p by (simp only: lr length_toString_base64)
  have "map (\<lambda>s. ?X ! (m ! s)) [0..<length m] = map ((!) ?X) (map ((!) m) [0..<length m])"
    by (simp only: map_map o_def)
  then have "map ((!) ?X) m = map (\<lambda>s. ?X ! (m ! s)) [0..<length m]"
    by (simp only: map_nth)
  also have "\<dots> = map (\<lambda>s. uint (?t ! (m ! s))) [0..<length m]"
  proof (rule map_cong [OF refl])
    fix s assume "s \<in> set [0..<length m]"
    then have "m ! s \<in> set m" by simp
    then have "m ! s < length ?t" using pm(2) by simp
    then show "?X ! (m ! s) = uint (?t ! (m ! s))" by simp
  qed
  finally have e: "map ((!) ?X) m = scramble secret m" by (simp only: r)
  have "Ah (scramble secret m) m = map Some ?X"
    by (rule Ah_eq_literal [OF p' _ e]) (simp add: lr)
  then have "Buffer_from_array (Ah (scramble secret m) m) = map of_int ?X"
    by (simp only: Buffer_from_array_Some)
  also have "map of_int ?X = ?t"
    by (simp add: list_eq_iff_nth_eq)
  finally have 1: "Buffer_from_array (Ah (scramble secret m) m) = ?t" .
  have 2: "toString_utf8 ?t = toString_base64 (rev secret)"
    unfolding toString_base64_def using ascii by (rule toString_utf8_ascii)
  show ?thesis
    by (simp only: Fl_def Let_def 1 2 Buffer_from_base64_toString_base64 rev_rev_ident)
qed

lemma Ah_swap: "Ah [x, y] [1, 0] = [Some y, Some x]"
  by (simp add: Ah_def arr_set_def arr_get_def upt_rec)

text \<open>
  C5.  For every secret and every permutation \<open>m\<close> of the right length, descrambling
  the table that the forward procedure builds (the bytes of the secret reversed, encoded
  as base64, and laid out with \<open>r[s] = t[m[s]]\<close>) returns the secret: the UTF-8 decoding
  of its bytes, which for a secret given as well-formed text is that text itself.  In
  the seed case, the permutation \<open>[1, 0]\<close> over two values swaps them.
\<close>

theorem descrambler_round_trip:
  assumes "permutation_of m (length (toString_base64 (rev secret)))"
  shows "Fl (scramble secret m) m = toString_utf8 secret \<and>
         (\<forall>text. well_formed text \<and> secret = Buffer_from_string text \<longrightarrow>
                 Fl (scramble secret m) m = text) \<and>
         Ah [x, y] [1, 0] = [Some y, Some x]"
  using Fl_scramble [OF assms] toString_utf8_Buffer_from_string Ah_swap by auto

theorem descrambler_round_trip_witness:
  "permutation_of [1, 0, 3, 2] (length (toString_base64 (rev [65, 66, 67]))) \<and>
   well_formed (js ''ABC'') \<and> [65, 66, 67] = Buffer_from_string (js ''ABC'') \<and>
   Fl (scramble [65, 66, 67] [1, 0, 3, 2]) [1, 0, 3, 2] = js ''ABC'' \<and>
   scramble [65, 66, 67] [1, 0, 3, 2] = [48, 81, 66, 74] \<and>
   Ah [7, 9] [1, 0] = [Some 9, Some 7]"
proof -
  have l: "length (toString_base64 (rev [65, 66, 67])) = 4"
    by (simp add: toString_base64_def)
  have "set [1, 0, 3, 2] = {..<4::nat}"
    by (simp add: lessThan_nat_numeral lessThan_Suc insert_commute)
  then have p: "permutation_of [1, 0, 3, 2] (length (toString_base64 (rev [65, 66, 67])))"
    unfolding l permutation_of_def by simp
  have w: "well_formed (js ''ABC'')" by (simp add: well_formed_def js_def)
  have b: "[65, 66, 67] = Buffer_from_string (js ''ABC'')"
    by (simp add: Buffer_from_string_def js_def utf8_bytes_def)
  have s: "scramble [65, 66, 67] [1, 0, 3, 2] = [48, 81, 66, 74]"
    by (simp add: scramble_def Buffer_from_string_def toString_base64_def b64_char_def
        utf8_bytes_def upt_rec)
  from descrambler_round_trip [OF p, of 7 9] w b
  have "Fl (scramble [65, 66, 67] [1, 0, 3, 2]) [1, 0, 3, 2] = js ''ABC'' \<and>
        Ah [7, 9] [1, 0] = [Some 9, Some 7]"
    by blast
  with p w b s show ?thesis by simp
qed

end
